theory Spec2Isabelle
  imports Main
begin

section \<open>Host values\<close>

text \<open>
  The cursor of \<^verbatim>\<open>celiter.go\<close> talks to the host engine through \<^verbatim>\<open>ref.Val\<close>.
  The host values the file builds or inspects are booleans (\<^verbatim>\<open>types.Bool\<close>), integers
  (\<^verbatim>\<open>types.Int\<close>), strings (\<^verbatim>\<open>types.String\<close>), error values (\<^verbatim>\<open>types.NewErr\<close>) and the
  cursor itself, a pointer that is compared by identity and is modelled by its address.
  Go's \<^verbatim>\<open>int\<close> and \<^verbatim>\<open>int64\<close> are modelled as unbounded integers: \<^verbatim>\<open>index\<close> and the
  counter of \<^verbatim>\<open>Size\<close> only ever grow by one per advance, so they cannot wrap before
  \<open>2 ^ 63\<close> advances of one cursor.
\<close>

datatype val = BoolV bool | IntV int | StringV string | ErrV string | IterV nat

datatype celType = BoolType | IntType | StringType | ErrorType | DynType

text \<open>\<^verbatim>\<open>ref.Val.Type()\<close>; the cursor's own type is \<^verbatim>\<open>types.DynType.WithTraits(...)\<close>.\<close>

fun typeOfVal :: "val \<Rightarrow> celType" where
  "typeOfVal (BoolV b) = BoolType"
| "typeOfVal (IntV i) = IntType"
| "typeOfVal (StringV s) = StringType"
| "typeOfVal (ErrV m) = ErrorType"
| "typeOfVal (IterV a) = DynType"

fun typeName :: "celType \<Rightarrow> string" where
  "typeName BoolType = ''bool''"
| "typeName IntType = ''int''"
| "typeName StringType = ''string''"
| "typeName ErrorType = ''error''"
| "typeName DynType = ''dyn''"

text \<open>
  A Go call either returns or panics. A loop that never ends is the value \<open>None\<close> of the
  functions below that contain one.
\<close>

datatype panic = InterfaceConversion | NilPointerDereference

datatype 'a outcome = Return 'a | Panic panic

text \<open>
  \<^verbatim>\<open>x.Value().(bool)\<close>: the single-value type assertion panics unless the payload is a
  Go \<^verbatim>\<open>bool\<close>. The payload of an error value is the wrapped Go error, of an integer an
  \<^verbatim>\<open>int64\<close>, of a string a \<^verbatim>\<open>string\<close>, of the cursor its current element.
\<close>

fun valueAsBool :: "val \<Rightarrow> bool outcome" where
  "valueAsBool (BoolV b) = Return b"
| "valueAsBool v = Panic InterfaceConversion"

section \<open>The cursor\<close>

text \<open>
  \<^verbatim>\<open>type Value[T any] struct { index int; cur T; hasNext HasNext; next Next[T]; convert Convert[T] }\<close>.
  The callbacks are Go closures: whatever they capture and mutate is the field \<open>env\<close>,
  which each callback reads and returns updated. A callback returns its value together
  with a Go error (\<open>None\<close> is \<^verbatim>\<open>nil\<close>). The field \<^verbatim>\<open>next\<close> is named \<open>nextf\<close>.
  \<^verbatim>\<open>convert\<close> is taken to be a pure function.
\<close>

type_synonym 's HasNextT = "'s \<Rightarrow> (bool \<times> string option) \<times> 's"
type_synonym ('t, 's) NextT = "'s \<Rightarrow> ('t \<times> string option) \<times> 's"
type_synonym 't ConvertT = "'t \<Rightarrow> val"

record ('t, 's) Value =
  index :: int
  cur :: 't
  hasNext :: "'s HasNextT"
  nextf :: "('t, 's) NextT"
  convert :: "'t ConvertT"
  env :: 's

text \<open>
  \<^verbatim>\<open>New\<close>: a \<^verbatim>\<open>nil\<close> callback (\<open>None\<close>) is replaced by its default. \<open>zero\<close> is the zero
  value of \<^verbatim>\<open>T\<close> and \<open>nativeToValue\<close> is \<^verbatim>\<open>types.DefaultTypeAdapter.NativeToValue\<close>.
\<close>

definition New ::
  "'t \<Rightarrow> 't ConvertT \<Rightarrow> 's HasNextT option \<Rightarrow> ('t, 's) NextT option \<Rightarrow> 't ConvertT option
    \<Rightarrow> 's \<Rightarrow> ('t, 's) Value" where
  "New zero nativeToValue hn nx cv e =
     \<lparr> index = - 1,
       cur = zero,
       hasNext = (case hn of None \<Rightarrow> (\<lambda>s. ((False, None), s)) | Some h \<Rightarrow> h),
       nextf = (case nx of None \<Rightarrow> (\<lambda>s. ((zero, Some ''no next element''), s)) | Some n \<Rightarrow> n),
       convert = (case cv of None \<Rightarrow> nativeToValue | Some c \<Rightarrow> c),
       env = e \<rparr>"

text \<open>\<^verbatim>\<open>Value.Next\<close>\<close>

definition Next :: "('t, 's) Value \<Rightarrow> val \<times> ('t, 's) Value" where
  "Next ci =
     (case nextf ci (env ci) of
        ((n, err), e') \<Rightarrow>
          (case err of
             Some msg \<Rightarrow> (ErrV (''error getting next element: '' @ msg), ci\<lparr>env := e'\<rparr>)
           | None \<Rightarrow> (convert ci n, ci\<lparr>cur := n, index := index ci + 1, env := e'\<rparr>)))"

text \<open>\<^verbatim>\<open>Value.HasNext\<close>\<close>

definition HasNext :: "('t, 's) Value \<Rightarrow> val \<times> ('t, 's) Value" where
  "HasNext ci =
     (case hasNext ci (env ci) of
        ((b, err), e') \<Rightarrow>
          (case err of
             Some msg \<Rightarrow> (ErrV (''error checking for next element: '' @ msg), ci\<lparr>env := e'\<rparr>)
           | None \<Rightarrow> (BoolV b, ci\<lparr>env := e'\<rparr>)))"

text \<open>
  \<^verbatim>\<open>Value.Get\<close>. The loop \<^verbatim>\<open>for v.index < keyIndex\<close> asserts the result of \<^verbatim>\<open>HasNext\<close> to be
  a \<^verbatim>\<open>bool\<close> and drops the result of \<^verbatim>\<open>Next\<close>.
\<close>

partial_function (option) Get_loop ::
  "int \<Rightarrow> ('t, 's) Value \<Rightarrow> (val outcome \<times> ('t, 's) Value) option" where
  "Get_loop keyIndex v =
     (if index v < keyIndex then
        (case HasNext v of
           (rv, v1) \<Rightarrow>
             (case valueAsBool rv of
                Panic p \<Rightarrow> Some (Panic p, v1)
              | Return b \<Rightarrow>
                  if \<not> b then Some (Return (ErrV ''index out of bounds during iterable access''), v1)
                  else (case Next v1 of (r, v2) \<Rightarrow> Get_loop keyIndex v2)))
      else Some (Return (convert v (cur v)), v))"

declare Get_loop.simps [code]

definition Get :: "val \<Rightarrow> ('t, 's) Value \<Rightarrow> (val outcome \<times> ('t, 's) Value) option" where
  "Get key v =
     (if typeOfVal key \<noteq> IntType then
        Some (Return (ErrV (''invalid key type for iterable: '' @ typeName (typeOfVal key)
                              @ '', must be int'')), v)
      else
        (case key of
           IntV keyIndex \<Rightarrow>
             if keyIndex < 0 then Some (Return (ErrV ''index cannot be negative''), v)
             else if keyIndex < index v then Some (Return (ErrV ''index already passed''), v)
             else Get_loop keyIndex v
         | _ \<Rightarrow> Some (Panic InterfaceConversion, v)))"

text \<open>\<^verbatim>\<open>Value.Size\<close>: the result of \<^verbatim>\<open>Next\<close> is dropped and the step counted.\<close>

partial_function (option) Size_loop ::
  "int \<Rightarrow> ('t, 's) Value \<Rightarrow> (val outcome \<times> ('t, 's) Value) option" where
  "Size_loop sz v =
     (case HasNext v of
        (rv, v1) \<Rightarrow>
          (case valueAsBool rv of
             Panic p \<Rightarrow> Some (Panic p, v1)
           | Return b \<Rightarrow>
               if b then (case Next v1 of (r, v2) \<Rightarrow> Size_loop (sz + 1) v2)
               else Some (Return (IntV sz), v1)))"

declare Size_loop.simps [code]

definition Size :: "('t, 's) Value \<Rightarrow> (val outcome \<times> ('t, 's) Value) option" where
  "Size v = Size_loop 0 v"

text \<open>
  \<^verbatim>\<open>Value.Contains\<close>. \<open>equal a b\<close> is the host's \<^verbatim>\<open>a.Equal(b)\<close>, the method of the value
  that \<^verbatim>\<open>Next\<close> returned; its result is compared with \<^verbatim>\<open>types.True\<close>.
\<close>

partial_function (option) Contains_loop ::
  "(val \<Rightarrow> val \<Rightarrow> val) \<Rightarrow> val \<Rightarrow> ('t, 's) Value \<Rightarrow> (val outcome \<times> ('t, 's) Value) option" where
  "Contains_loop equal x v =
     (case HasNext v of
        (rv, v1) \<Rightarrow>
          (case valueAsBool rv of
             Panic p \<Rightarrow> Some (Panic p, v1)
           | Return b \<Rightarrow>
               if b then
                 (case Next v1 of
                    (r, v2) \<Rightarrow>
                      if equal r x = BoolV True then Some (Return (BoolV True), v2)
                      else Contains_loop equal x v2)
               else Some (Return (BoolV False), v1)))"

declare Contains_loop.simps [code]

definition Contains ::
  "(val \<Rightarrow> val \<Rightarrow> val) \<Rightarrow> val \<Rightarrow> ('t, 's) Value \<Rightarrow> (val outcome \<times> ('t, 's) Value) option" where
  "Contains equal x v = Contains_loop equal x v"

text \<open>
  \<^verbatim>\<open>Value.ConvertToNative\<close>. \<open>typeOf\<close> is \<^verbatim>\<open>reflect.TypeOf\<close> on an element of type \<^verbatim>\<open>T\<close>
  (\<open>None\<close> for a \<^verbatim>\<open>nil\<close> interface value, on which the method call \<^verbatim>\<open>AssignableTo\<close>
  panics), \<open>assignableTo\<close> is \<^verbatim>\<open>reflect.Type.AssignableTo\<close> and \<open>goName\<close> is
  \<^verbatim>\<open>reflect.Type.Name\<close>. The Go pair \<^verbatim>\<open>(any, error)\<close> is a sum, \<open>Inl\<close> the error.
\<close>

definition ConvertToNative ::
  "('t \<Rightarrow> 'ty option) \<Rightarrow> ('ty \<Rightarrow> 'ty \<Rightarrow> bool) \<Rightarrow> ('ty \<Rightarrow> string)
    \<Rightarrow> ('t, 's) Value \<Rightarrow> 'ty \<Rightarrow> (string + 't) outcome" where
  "ConvertToNative typeOf assignableTo goName v typ =
     (let nativeValue = cur v in
        case typeOf nativeValue of
          None \<Rightarrow> Panic NilPointerDereference
        | Some ty \<Rightarrow>
            if assignableTo ty typ then Return (Inr nativeValue)
            else Return (Inl (''unable to convert '' @ typeName DynType
                               @ '' to native type '' @ goName typ)))"

text \<open>\<^verbatim>\<open>Value.ConvertToType\<close>\<close>

definition ConvertToType :: "('t, 's) Value \<Rightarrow> celType \<Rightarrow> val" where
  "ConvertToType ci typ =
     ErrV (''unable to convert '' @ typeName DynType @ '' to type '' @ typeName typ)"

text \<open>
  \<^verbatim>\<open>Value.Equal\<close>: pointer equality with another cursor. \<open>self\<close> is the address of the
  receiver.
\<close>

definition Equal :: "nat \<Rightarrow> ('t, 's) Value \<Rightarrow> val \<Rightarrow> val" where
  "Equal self ci other = (case other of IterV a \<Rightarrow> BoolV (self = a) | _ \<Rightarrow> BoolV False)"

text \<open>\<^verbatim>\<open>Value.Value\<close>\<close>

definition Value' :: "('t, 's) Value \<Rightarrow> 't" where
  "Value' ci = cur ci"

section \<open>Sequences of capability operations\<close>

text \<open>
  The host engine calls the methods of one cursor one after the other. A panic of one
  call leaves the cursor as it was when the panic was raised.
\<close>

datatype 'ty op =
  OpHasNext | OpNext | OpGet val | OpSize | OpContains val | OpConvertToNative 'ty | OpEqual val

datatype 't res = Host val | Native "string + 't"

fun liftHost :: "(val outcome \<times> 'v) option \<Rightarrow> ('t res outcome \<times> 'v) option" where
  "liftHost None = None"
| "liftHost (Some (Return r, v)) = Some (Return (Host r), v)"
| "liftHost (Some (Panic p, v)) = Some (Panic p, v)"

fun liftNative :: "(string + 't) outcome \<Rightarrow> 't res outcome" where
  "liftNative (Return r) = Return (Native r)"
| "liftNative (Panic p) = Panic p"

fun exec ::
  "('t \<Rightarrow> 'ty option) \<Rightarrow> ('ty \<Rightarrow> 'ty \<Rightarrow> bool) \<Rightarrow> ('ty \<Rightarrow> string) \<Rightarrow> (val \<Rightarrow> val \<Rightarrow> val) \<Rightarrow> nat
    \<Rightarrow> 'ty op \<Rightarrow> ('t, 's) Value \<Rightarrow> ('t res outcome \<times> ('t, 's) Value) option" where
  "exec typeOf assignableTo goName equal self OpHasNext v =
     (case HasNext v of (r, v') \<Rightarrow> Some (Return (Host r), v'))"
| "exec typeOf assignableTo goName equal self OpNext v =
     (case Next v of (r, v') \<Rightarrow> Some (Return (Host r), v'))"
| "exec typeOf assignableTo goName equal self (OpGet key) v = liftHost (Get key v)"
| "exec typeOf assignableTo goName equal self OpSize v = liftHost (Size v)"
| "exec typeOf assignableTo goName equal self (OpContains x) v = liftHost (Contains equal x v)"
| "exec typeOf assignableTo goName equal self (OpConvertToNative typ) v =
     Some (liftNative (ConvertToNative typeOf assignableTo goName v typ), v)"
| "exec typeOf assignableTo goName equal self (OpEqual other) v =
     Some (Return (Host (Equal self v other)), v)"

fun run ::
  "('t \<Rightarrow> 'ty option) \<Rightarrow> ('ty \<Rightarrow> 'ty \<Rightarrow> bool) \<Rightarrow> ('ty \<Rightarrow> string) \<Rightarrow> (val \<Rightarrow> val \<Rightarrow> val) \<Rightarrow> nat
    \<Rightarrow> 'ty op list \<Rightarrow> ('t, 's) Value \<Rightarrow> ('t res outcome list \<times> ('t, 's) Value) option" where
  "run typeOf assignableTo goName equal self [] v = Some ([], v)"
| "run typeOf assignableTo goName equal self (a # as) v =
     (case exec typeOf assignableTo goName equal self a v of
        None \<Rightarrow> None
      | Some (r, v1) \<Rightarrow>
          (case run typeOf assignableTo goName equal self as v1 of
             None \<Rightarrow> None
           | Some (rs, v2) \<Rightarrow> Some (r # rs, v2)))"

section \<open>Importing a native generator\<close>

text \<open>
  An \<^verbatim>\<open>iter.Seq[T]\<close> is a function that calls \<^verbatim>\<open>yield\<close> once per element. Under
  \<^verbatim>\<open>iter.Pull\<close> it runs as a coroutine: each call of the pull function resumes it until
  its next \<^verbatim>\<open>yield\<close> or its return. The generator is modelled by that resumable
  computation: \<open>resume g\<close> is the element of the next \<^verbatim>\<open>yield\<close> with the suspended rest
  of the computation, or \<open>None\<close> when the function returns. Once it has returned, or
  after \<^verbatim>\<open>stop\<close>, the pull function gives the zero value and \<^verbatim>\<open>false\<close>.
\<close>

type_synonym ('t, 'g) Seq = "('g \<Rightarrow> ('t \<times> 'g) option) \<times> 'g"

definition pullNext ::
  "('g \<Rightarrow> ('t \<times> 'g) option) \<Rightarrow> 't \<Rightarrow> 'g option \<Rightarrow> ('t \<times> bool) \<times> 'g option" where
  "pullNext resume zero c =
     (case c of
        None \<Rightarrow> ((zero, False), None)
      | Some g \<Rightarrow>
          (case resume g of
             None \<Rightarrow> ((zero, False), None)
           | Some (x, g') \<Rightarrow> ((x, True), Some g')))"

definition pullStop :: "'g option \<Rightarrow> 'g option" where
  "pullStop c = None"

text \<open>
  What the two closures of \<^verbatim>\<open>FromSeq\<close> capture: the variable \<^verbatim>\<open>cur\<close> (\<open>slot\<close>) and the
  coroutine behind \<^verbatim>\<open>next, stop := iter.Pull(seq)\<close>.
\<close>

record ('t, 'g) pulled =
  slot :: 't
  coro :: "'g option"

definition FromSeq_hasNext ::
  "('g \<Rightarrow> ('t \<times> 'g) option) \<Rightarrow> 't \<Rightarrow> ('t, 'g) pulled HasNextT" where
  "FromSeq_hasNext resume zero s =
     (case pullNext resume zero (coro s) of
        ((c, ok), p) \<Rightarrow>
          ((ok, None), \<lparr> slot = c, coro = (if \<not> ok then pullStop p else p) \<rparr>))"

definition FromSeq_getNext :: "('t, ('t, 'g) pulled) NextT" where
  "FromSeq_getNext s = ((slot s, None), s)"

definition FromSeq ::
  "'t \<Rightarrow> 't ConvertT \<Rightarrow> ('t, 'g) Seq \<Rightarrow> 't ConvertT option \<Rightarrow> ('t, ('t, 'g) pulled) Value" where
  "FromSeq zero nativeToValue seq cv =
     New zero nativeToValue (Some (FromSeq_hasNext (fst seq) zero)) (Some FromSeq_getNext) cv
       \<lparr> slot = zero, coro = Some (snd seq) \<rparr>"

section \<open>Exporting a cursor\<close>

text \<open>
  \<^verbatim>\<open>fmt.Sprintf("%v", rv) == "true"\<close>: a boolean prints as \<^verbatim>\<open>true\<close> or \<^verbatim>\<open>false\<close>, a string
  and an error value as their text, an integer as decimal digits and a cursor as a
  pointer to a struct.
\<close>

fun rendersTrue :: "val \<Rightarrow> bool" where
  "rendersTrue (BoolV b) = b"
| "rendersTrue (StringV s) = (s = ''true'')"
| "rendersTrue (ErrV m) = (m = ''true'')"
| "rendersTrue (IntV i) = False"
| "rendersTrue (IterV a) = False"

text \<open>
  The generator that \<^verbatim>\<open>AsSeq\<close> returns, applied to a consumer: \<open>yield t c\<close> is the
  consumer's \<^verbatim>\<open>yield(t)\<close> in consumer state \<open>c\<close>. \<open>cvt\<close> is \<^verbatim>\<open>convert\<close>, which may panic
  (the default \<^verbatim>\<open>val.Value().(T)\<close> does on a payload of another type). The two closures
  \<^verbatim>\<open>hasNext\<close> and \<^verbatim>\<open>getNext\<close> of \<^verbatim>\<open>AsSeq\<close> always return a \<^verbatim>\<open>nil\<close> error, so of the
  three \<^verbatim>\<open>break\<close>s of the loop the one after \<^verbatim>\<open>getNext\<close> never fires.
\<close>

partial_function (option) AsSeq_loop ::
  "(val \<Rightarrow> 'u outcome) \<Rightarrow> ('u \<Rightarrow> 'c \<Rightarrow> bool \<times> 'c) \<Rightarrow> 'c \<Rightarrow> ('t, 's) Value
    \<Rightarrow> (unit outcome \<times> 'c \<times> ('t, 's) Value) option" where
  "AsSeq_loop cvt yield c iterVal =
     (case HasNext iterVal of
        (rv, v1) \<Rightarrow>
          (case (rendersTrue rv, None :: string option) of
             (ok, err) \<Rightarrow>
               if err \<noteq> None \<or> \<not> ok then Some (Return (), c, v1)
               else
                 (case Next v1 of
                    (nv, v2) \<Rightarrow>
                      (case cvt nv of
                         Panic p \<Rightarrow> Some (Panic p, c, v2)
                       | Return t \<Rightarrow>
                           (case yield t c of
                              (continue, c') \<Rightarrow>
                                if \<not> continue then Some (Return (), c', v2)
                                else AsSeq_loop cvt yield c' v2)))))"

declare AsSeq_loop.simps [code]

text \<open>
  \<^verbatim>\<open>AsSeq\<close>. The argument is a host value without the iterator capability (\<open>Inl\<close>) or a
  cursor (\<open>Inr\<close>); \<open>valueAs\<close> is the default conversion \<^verbatim>\<open>val.Value().(T)\<close>.
\<close>

definition AsSeq ::
  "(val \<Rightarrow> 'u outcome) \<Rightarrow> val + ('t, 's) Value \<Rightarrow> (val \<Rightarrow> 'u outcome) option
    \<Rightarrow> ('u \<Rightarrow> 'c \<Rightarrow> bool \<times> 'c) \<Rightarrow> 'c \<Rightarrow> (unit outcome \<times> 'c \<times> (val + ('t, 's) Value)) option" where
  "AsSeq valueAs v cv yield c =
     (let cvt = (case cv of None \<Rightarrow> valueAs | Some f \<Rightarrow> f) in
        case v of
          Inl x \<Rightarrow> Some (Return (), c, Inl x)
        | Inr iterVal \<Rightarrow>
            (case AsSeq_loop cvt yield c iterVal of
               None \<Rightarrow> None
             | Some (r, c', v') \<Rightarrow> Some (r, c', Inr v')))"

text \<open>\<^verbatim>\<open>slices.Collect\<close>: the consumer that appends every element and never stops.\<close>

definition slicesCollect ::
  "(('u \<Rightarrow> 'u list \<Rightarrow> bool \<times> 'u list) \<Rightarrow> 'u list \<Rightarrow> 'r) \<Rightarrow> 'r" where
  "slicesCollect seq = seq (\<lambda>t acc. (True, acc @ [t])) []"

section \<open>Producers\<close>

text \<open>
  \<open>produces hn nx e xs\<close>: from producer state \<open>e\<close>, the next \<open>length xs\<close> rounds of
  availability check and advance succeed and deliver \<open>xs\<close> in order; the result is the
  producer state after exactly these rounds.
\<close>

fun produces :: "'s HasNextT \<Rightarrow> ('t, 's) NextT \<Rightarrow> 's \<Rightarrow> 't list \<Rightarrow> 's option" where
  "produces hn nx e [] = Some e"
| "produces hn nx e (x # xs) =
     (case hn e of
        ((b, err), e1) \<Rightarrow>
          if b \<and> err = None then
            (case nx e1 of
               ((y, err'), e2) \<Rightarrow>
                 if err' = None \<and> y = x then produces hn nx e2 xs else None)
          else None)"

text \<open>\<open>staysEmpty hn e k\<close>: the next \<open>k\<close> availability checks from \<open>e\<close> all report false.\<close>

fun staysEmpty :: "'s HasNextT \<Rightarrow> 's \<Rightarrow> nat \<Rightarrow> bool" where
  "staysEmpty hn e 0 = True"
| "staysEmpty hn e (Suc k) =
     (case hn e of ((b, err), e1) \<Rightarrow> \<not> b \<and> err = None \<and> staysEmpty hn e1 k)"

text \<open>
  A well-behaved producer of length \<open>length xs\<close>: it delivers \<open>xs\<close> and from then on
  reports false forever.
\<close>

definition wellBehaved :: "'s HasNextT \<Rightarrow> ('t, 's) NextT \<Rightarrow> 's \<Rightarrow> 't list \<Rightarrow> bool" where
  "wellBehaved hn nx e xs =
     (case produces hn nx e xs of None \<Rightarrow> False | Some e' \<Rightarrow> \<forall>k. staysEmpty hn e' k)"

text \<open>
  \<open>yields resume g xs\<close>: run directly, the generator yields \<open>xs\<close> as its next elements;
  \<open>generates\<close>: and then returns.
\<close>

fun yields :: "('g \<Rightarrow> ('t \<times> 'g) option) \<Rightarrow> 'g \<Rightarrow> 't list \<Rightarrow> 'g option" where
  "yields resume g [] = Some g"
| "yields resume g (x # xs) =
     (case resume g of
        None \<Rightarrow> None
      | Some (y, g') \<Rightarrow> if y = x then yields resume g' xs else None)"

definition generates :: "('t, 'g) Seq \<Rightarrow> 't list \<Rightarrow> bool" where
  "generates seq xs =
     (case yields (fst seq) (snd seq) xs of None \<Rightarrow> False | Some g' \<Rightarrow> fst seq g' = None)"

text \<open>\<^verbatim>\<open>slices.Values\<close>: the generator over a slice.\<close>

fun sliceResume :: "'t list \<Rightarrow> ('t \<times> 't list) option" where
  "sliceResume [] = None"
| "sliceResume (x # xs) = Some (x, xs)"

definition slicesValues :: "'t list \<Rightarrow> ('t, 't list) Seq" where
  "slicesValues xs = (sliceResume, xs)"

section \<open>The cursors of the repository's tests\<close>

text \<open>
  \<^verbatim>\<open>celiter.FromSeq(slices.Values([]string{"test", "example", "sample"}), ...)\<close> with the
  conversion \<^verbatim>\<open>types.String(v)\<close>, and the conversion \<^verbatim>\<open>v.Value().(string)\<close> that
  \<^verbatim>\<open>TestAsSeq\<close> exports with. The zero value of \<^verbatim>\<open>string\<close> is the empty string.
\<close>

definition testValues :: "string list" where
  "testValues = [''test'', ''example'', ''sample'']"

definition testCursor :: "(string, (string, string list) pulled) Value" where
  "testCursor = FromSeq [] StringV (slicesValues testValues) (Some StringV)"

fun valueAsString :: "val \<Rightarrow> string outcome" where
  "valueAsString (StringV s) = Return s"
| "valueAsString v = Panic InterfaceConversion"

text \<open>
  The generator of \<^verbatim>\<open>Test_Seq_Fibonacci\<close>: \<^verbatim>\<open>a, b := 0, 1\<close>, then forever
  \<^verbatim>\<open>yield(a); a, b = b, a+b\<close>, on Go's 64-bit \<^verbatim>\<open>int\<close>, whose addition wraps.
\<close>

definition wrap64 :: "int \<Rightarrow> int" where
  "wrap64 i = (i + 2 ^ 63) mod 2 ^ 64 - 2 ^ 63"

definition fibResume :: "int \<times> int \<Rightarrow> (int \<times> (int \<times> int)) option" where
  "fibResume s = (case s of (a, b) \<Rightarrow> Some (a, (b, wrap64 (a + b))))"

definition fibSeq :: "(int, int \<times> int) Seq" where
  "fibSeq = (fibResume, (0, 1))"

definition fibCursor :: "(int, (int, int \<times> int) pulled) Value" where
  "fibCursor = FromSeq 0 IntV fibSeq (Some IntV)"

text \<open>
  The host's equality on the values modelled here, as the host library defines
  \<^verbatim>\<open>Equal\<close> for them: a boolean, an integer or a string equals a value of the same kind
  with the same payload, an error value answers with itself, a cursor compares by
  identity.
\<close>

fun hostEqual :: "val \<Rightarrow> val \<Rightarrow> val" where
  "hostEqual (ErrV m) other = ErrV m"
| "hostEqual a other = BoolV (a = other)"

text \<open>
  A producer that fails: its availability check returns an error. And one whose advance
  fails the first time and succeeds from then on, with an availability check that is
  always true; the captured counter is the number of advances so far.
\<close>

definition failingHasNext :: "unit HasNextT" where
  "failingHasNext s = ((False, Some ''boom''), s)"

definition failingCursor :: "(string, unit) Value" where
  "failingCursor = New [] StringV (Some failingHasNext) None (Some StringV) ()"

definition alwaysHasNext :: "nat HasNextT" where
  "alwaysHasNext s = ((True, None), s)"

definition flakyNext :: "(string, nat) NextT" where
  "flakyNext s = (if s = 0 then (([], Some ''boom''), Suc s) else ((''a'', None), Suc s))"

definition flakyCursor :: "(string, nat) Value" where
  "flakyCursor = New [] StringV (Some alwaysHasNext) (Some flakyNext) (Some StringV) 0"

text \<open>
  A cursor over Go \<^verbatim>\<open>int\<close>s with both conversions left to their defaults:
  \<^verbatim>\<open>celiter.FromSeq(slices.Values([]int{1, 2, 3}), nil)\<close>, exported with
  \<^verbatim>\<open>celiter.AsSeq[int](val, nil)\<close>. The default import conversion,
  \<^verbatim>\<open>types.DefaultTypeAdapter.NativeToValue\<close>, turns a Go \<^verbatim>\<open>int\<close> into a \<^verbatim>\<open>types.Int\<close>. The
  default export conversion is \<^verbatim>\<open>val.Value().(int)\<close>: the payload of a boolean, an
  integer, a string and an error value is a \<^verbatim>\<open>bool\<close>, an \<^verbatim>\<open>int64\<close>, a \<^verbatim>\<open>string\<close> and a Go
  error, none of them an \<^verbatim>\<open>int\<close>, so the assertion panics; the payload of a cursor is
  its current element, which \<open>cursorInts\<close> gives for the address of a cursor whose
  current element is an \<^verbatim>\<open>int\<close>.
\<close>

definition intValues :: "int list" where
  "intValues = [1, 2, 3]"

definition intCursor :: "(int, (int, int list) pulled) Value" where
  "intCursor = FromSeq 0 IntV (slicesValues intValues) None"

fun valueAsGoInt :: "(nat \<Rightarrow> int option) \<Rightarrow> val \<Rightarrow> int outcome" where
  "valueAsGoInt cursorInts (IterV a) =
     (case cursorInts a of None \<Rightarrow> Panic InterfaceConversion | Some i \<Rightarrow> Return i)"
| "valueAsGoInt cursorInts v = Panic InterfaceConversion"

text \<open>
  A producer that always announces a next element and never delivers one: the
  availability check is always true and the advance is the default of \<^verbatim>\<open>New\<close>, which
  fails.
\<close>

definition stuckCursor :: "(string, nat) Value" where
  "stuckCursor = New [] StringV (Some alwaysHasNext) None (Some StringV) 0"

section \<open>Basic facts\<close>

lemma Next_index_mono: "Next v = (r, v') \<Longrightarrow> index v \<le> index v'"
  by (auto simp: Next_def split: prod.splits option.splits)

lemma HasNext_ok:
  "hasNext v (env v) = ((b, None), e1) \<Longrightarrow> HasNext v = (BoolV b, v\<lparr>env := e1\<rparr>)"
  by (simp add: HasNext_def)

lemma HasNext_err:
  "hasNext v (env v) = ((b, Some m), e1) \<Longrightarrow>
     HasNext v = (ErrV (''error checking for next element: '' @ m), v\<lparr>env := e1\<rparr>)"
  by (simp add: HasNext_def)

lemma Next_ok:
  "nextf v (env v) = ((x, None), e2) \<Longrightarrow>
     Next v = (convert v x, v\<lparr>cur := x, index := index v + 1, env := e2\<rparr>)"
  by (simp add: Next_def)

lemma Next_err:
  "nextf v (env v) = ((x, Some m), e2) \<Longrightarrow>
     Next v = (ErrV (''error getting next element: '' @ m), v\<lparr>env := e2\<rparr>)"
  by (simp add: Next_def)

lemma Get_loop_done:
  "\<not> index v < k \<Longrightarrow> Get_loop k v = Some (Return (convert v (cur v)), v)"
  by (subst Get_loop.simps) simp

lemma Get_loop_round:
  assumes "index v < k" and "hasNext v (env v) = ((True, None), e1)"
    and "nextf v e1 = ((x, None), e2)"
  shows "Get_loop k v = Get_loop k (v\<lparr>cur := x, index := index v + 1, env := e2\<rparr>)"
  using assms by (subst Get_loop.simps) (simp add: HasNext_def Next_def)

lemma Get_loop_exhausted:
  assumes "index v < k" and "hasNext v (env v) = ((False, None), e1)"
  shows "Get_loop k v =
    Some (Return (ErrV ''index out of bounds during iterable access''), v\<lparr>env := e1\<rparr>)"
  using assms by (subst Get_loop.simps) (simp add: HasNext_def)

lemma Get_loop_panic:
  assumes "index v < k" and "hasNext v (env v) = ((b, Some m), e1)"
  shows "Get_loop k v = Some (Panic InterfaceConversion, v\<lparr>env := e1\<rparr>)"
  using assms by (subst Get_loop.simps) (simp add: HasNext_def)

lemma Get_loop_produces:
  assumes "produces (hasNext v) (nextf v) (env v) xs = Some e'" and "xs \<noteq> []"
  shows "Get_loop (index v + int (length xs)) v =
    Some (Return (convert v (last xs)),
          v\<lparr>cur := last xs, index := index v + int (length xs), env := e'\<rparr>)"
  using assms
proof (induction xs arbitrary: v)
  case Nil
  then show ?case by simp
next
  case (Cons x xs)
  from Cons.prems(1) obtain e1 e2 where
    h: "hasNext v (env v) = ((True, None), e1)" and n: "nextf v e1 = ((x, None), e2)"
    and p: "produces (hasNext v) (nextf v) e2 xs = Some e'"
    by (auto split: prod.splits if_splits)
  let ?k = "index v + int (length (x # xs))"
  let ?v2 = "v\<lparr>cur := x, index := index v + 1, env := e2\<rparr>"
  have k2: "?k = index ?v2 + int (length xs)" by simp
  have step: "Get_loop ?k v = Get_loop ?k ?v2"
    by (rule Get_loop_round [OF _ h n]) simp
  show ?case
  proof (cases "xs = []")
    case True
    have "Get_loop ?k ?v2 = Some (Return (convert ?v2 (cur ?v2)), ?v2)"
      by (rule Get_loop_done) (simp add: True)
    with step have "Get_loop ?k v = Some (Return (convert ?v2 (cur ?v2)), ?v2)"
      by (rule trans)
    with True p show ?thesis by simp
  next
    case False
    have "Get_loop (index ?v2 + int (length xs)) ?v2 =
      Some (Return (convert ?v2 (last xs)),
            ?v2\<lparr>cur := last xs, index := index ?v2 + int (length xs), env := e'\<rparr>)"
      by (rule Cons.IH) (use p False in simp_all)
    then have "Get_loop ?k ?v2 =
      Some (Return (convert ?v2 (last xs)),
            ?v2\<lparr>cur := last xs, index := index ?v2 + int (length xs), env := e'\<rparr>)"
      by (simp only: k2)
    with step have "Get_loop ?k v =
      Some (Return (convert ?v2 (last xs)),
            ?v2\<lparr>cur := last xs, index := index ?v2 + int (length xs), env := e'\<rparr>)"
      by (rule trans)
    with False show ?thesis by simp
  qed
qed

lemma HasNext_index: "HasNext v = (r, v') \<Longrightarrow> index v' = index v"
  by (auto simp: HasNext_def split: prod.splits option.splits)

lemma Get_loop_index_mono:
  assumes "Get_loop k v = Some y"
  shows "index v \<le> index (snd y)"
proof (rule Get_loop.raw_induct [where P = "\<lambda>k v y. index v \<le> index (snd y)", OF _ assms],
    goal_cases)
  case (1 f k v y)
  show ?case
  proof (cases "index v < k")
    case False
    with 1(2) show ?thesis by auto
  next
    case True
    obtain rv v1 where h: "HasNext v = (rv, v1)" by (cases "HasNext v")
    obtain r2 v2 where n: "Next v1 = (r2, v2)" by (cases "Next v1")
    have i1: "index v1 = index v"
      using h by (rule HasNext_index)
    have i2: "index v1 \<le> index v2"
      using n by (rule Next_index_mono)
    show ?thesis
      using 1(2) True h n i1 i2 1(1) [of k v2 y]
      by (auto split: outcome.splits if_splits)
  qed
qed

lemma Size_loop_index_mono:
  assumes "Size_loop n v = Some y"
  shows "index v \<le> index (snd y)"
proof (rule Size_loop.raw_induct [where P = "\<lambda>n v y. index v \<le> index (snd y)", OF _ assms],
    goal_cases)
  case (1 f n v y)
  obtain rv v1 where h: "HasNext v = (rv, v1)" by (cases "HasNext v")
  obtain r2 v2 where n: "Next v1 = (r2, v2)" by (cases "Next v1")
  have i1: "index v1 = index v"
    using h by (rule HasNext_index)
  have i2: "index v1 \<le> index v2"
    using n by (rule Next_index_mono)
  show ?case
    using 1(2) h n i1 i2 1(1) [of "n + 1" v2 y]
    by (auto split: outcome.splits if_splits)
qed

lemma Contains_loop_index_mono:
  assumes "Contains_loop eq x v = Some y"
  shows "index v \<le> index (snd y)"
proof (rule Contains_loop.raw_induct
    [of "\<lambda>eq x v y. index v \<le> index (snd y)" "((eq, x), v)", unfolded prod.case, OF _ assms],
    goal_cases)
  case (1 f eq x v y)
  obtain rv v1 where h: "HasNext v = (rv, v1)" by (cases "HasNext v")
  obtain r2 v2 where n: "Next v1 = (r2, v2)" by (cases "Next v1")
  have i1: "index v1 = index v"
    using h by (rule HasNext_index)
  have i2: "index v1 \<le> index v2"
    using n by (rule Next_index_mono)
  show ?case
    using 1(2) h n i1 i2 1(1) [of eq x v2 y]
    by (auto split: outcome.splits if_splits)
qed

lemma exec_index_mono:
  assumes "exec typeOf assignableTo goName equal self a v = Some (r, v')"
  shows "index v \<le> index v'"
proof (cases a)
  case OpHasNext
  with assms show ?thesis by (auto split: prod.splits dest: HasNext_index)
next
  case OpNext
  with assms show ?thesis by (auto split: prod.splits dest: Next_index_mono)
next
  case (OpGet key)
  with assms obtain r0 where g: "Get key v = Some (r0, v')"
    by (cases "Get key v" rule: liftHost.cases) auto
  then show ?thesis
    by (auto simp: Get_def split: if_splits val.splits dest: Get_loop_index_mono)
next
  case OpSize
  with assms obtain r0 where "Size v = Some (r0, v')"
    by (cases "Size v" rule: liftHost.cases) auto
  then show ?thesis
    by (auto simp: Size_def dest: Size_loop_index_mono)
next
  case (OpContains x)
  with assms obtain r0 where "Contains equal x v = Some (r0, v')"
    by (cases "Contains equal x v" rule: liftHost.cases) auto
  then show ?thesis
    by (auto simp: Contains_def dest: Contains_loop_index_mono)
next
  case (OpConvertToNative ty)
  with assms show ?thesis by simp
next
  case (OpEqual other)
  with assms show ?thesis by simp
qed

lemma run_index_mono:
  "run typeOf assignableTo goName equal self ops v = Some (rs, v') \<Longrightarrow> index v \<le> index v'"
proof (induction ops arbitrary: v rs)
  case Nil
  then show ?case by simp
next
  case (Cons a ops)
  from Cons.prems obtain r v1 rs' where
    e: "exec typeOf assignableTo goName equal self a v = Some (r, v1)"
    and r: "run typeOf assignableTo goName equal self ops v1 = Some (rs', v')"
    by (auto split: option.splits)
  from exec_index_mono [OF e] Cons.IH [OF r] show ?case by simp
qed

lemma produces_Cons_elim:
  assumes "produces hn nx e (x # xs) = Some e'"
  obtains e1 e2 where "hn e = ((True, None), e1)" and "nx e1 = ((x, None), e2)"
    and "produces hn nx e2 xs = Some e'"
  using assms by (auto split: prod.splits if_splits)

lemma produces_append:
  "produces hn nx e (xs @ ys) =
     (case produces hn nx e xs of None \<Rightarrow> None | Some e1 \<Rightarrow> produces hn nx e1 ys)"
  by (induction xs arbitrary: e) (auto split: prod.splits)

lemma staysEmpty_step:
  assumes "\<forall>k. staysEmpty hn e k"
  obtains e1 where "hn e = ((False, None), e1)" and "\<forall>k. staysEmpty hn e1 k"
proof -
  obtain b err e1 where h: "hn e = ((b, err), e1)"
    by (metis surj_pair)
  have "staysEmpty hn e (Suc k)" for k using assms by blast
  with h have *: "\<not> b \<and> err = None \<and> staysEmpty hn e1 k" for k by simp
  then have "hn e = ((False, None), e1)" and "\<forall>k. staysEmpty hn e1 k"
    using h by auto
  then show ?thesis by (rule that)
qed

lemma Size_loop_round:
  assumes "hasNext v (env v) = ((True, None), e1)" and "nextf v e1 = ((x, None), e2)"
  shows "Size_loop n v = Size_loop (n + 1) (v\<lparr>cur := x, index := index v + 1, env := e2\<rparr>)"
  using assms by (subst Size_loop.simps) (simp add: HasNext_def Next_def)

lemma Size_loop_exhausted:
  assumes "hasNext v (env v) = ((False, None), e1)"
  shows "Size_loop n v = Some (Return (IntV n), v\<lparr>env := e1\<rparr>)"
  using assms by (subst Size_loop.simps) (simp add: HasNext_def)

lemma Size_loop_panic:
  assumes "hasNext v (env v) = ((b, Some m), e1)"
  shows "Size_loop n v = Some (Panic InterfaceConversion, v\<lparr>env := e1\<rparr>)"
  using assms by (subst Size_loop.simps) (simp add: HasNext_def)

lemma Size_loop_produces:
  assumes "produces (hasNext v) (nextf v) (env v) xs = Some e'"
    and "hasNext v e' = ((False, None), e'')"
  shows "Size_loop n v =
    Some (Return (IntV (n + int (length xs))),
          v\<lparr>cur := last (cur v # xs), index := index v + int (length xs), env := e''\<rparr>)"
  using assms
proof (induction xs arbitrary: v n)
  case Nil
  then show ?case by (simp add: Size_loop_exhausted)
next
  case (Cons x xs)
  from Cons.prems(1) obtain e1 e2 where
    h: "hasNext v (env v) = ((True, None), e1)" and n: "nextf v e1 = ((x, None), e2)"
    and p: "produces (hasNext v) (nextf v) e2 xs = Some e'"
    by (rule produces_Cons_elim)
  let ?v2 = "v\<lparr>cur := x, index := index v + 1, env := e2\<rparr>"
  have "Size_loop (n + 1) ?v2 =
    Some (Return (IntV (n + 1 + int (length xs))),
          ?v2\<lparr>cur := last (cur ?v2 # xs), index := index ?v2 + int (length xs), env := e''\<rparr>)"
    by (rule Cons.IH) (use p Cons.prems(2) in simp_all)
  then show ?case
    by (simp add: Size_loop_round [OF h n] add.assoc)
qed

lemma Get_loop_out_of_bounds:
  assumes "produces (hasNext v) (nextf v) (env v) xs = Some e'"
    and "hasNext v e' = ((False, None), e'')"
    and "index v + int (length xs) < k"
  shows "Get_loop k v =
    Some (Return (ErrV ''index out of bounds during iterable access''),
          v\<lparr>cur := last (cur v # xs), index := index v + int (length xs), env := e''\<rparr>)"
  using assms
proof (induction xs arbitrary: v)
  case Nil
  then show ?case by (simp add: Get_loop_exhausted)
next
  case (Cons x xs)
  from Cons.prems(1) obtain e1 e2 where
    h: "hasNext v (env v) = ((True, None), e1)" and n: "nextf v e1 = ((x, None), e2)"
    and p: "produces (hasNext v) (nextf v) e2 xs = Some e'"
    by (rule produces_Cons_elim)
  let ?v2 = "v\<lparr>cur := x, index := index v + 1, env := e2\<rparr>"
  have lt: "index v < k" using Cons.prems(3) by simp
  have "Get_loop k ?v2 =
    Some (Return (ErrV ''index out of bounds during iterable access''),
          ?v2\<lparr>cur := last (cur ?v2 # xs), index := index ?v2 + int (length xs), env := e''\<rparr>)"
    by (rule Cons.IH) (use p Cons.prems(2,3) in simp_all)
  then show ?case
    by (simp add: Get_loop_round [OF lt h n] add.assoc)
qed

lemma Contains_loop_round:
  assumes "hasNext v (env v) = ((True, None), e1)" and "nextf v e1 = ((y, None), e2)"
  shows "Contains_loop eq x v =
    (if eq (convert v y) x = BoolV True
     then Some (Return (BoolV True), v\<lparr>cur := y, index := index v + 1, env := e2\<rparr>)
     else Contains_loop eq x (v\<lparr>cur := y, index := index v + 1, env := e2\<rparr>))"
  using assms by (subst Contains_loop.simps) (simp add: HasNext_def Next_def)

lemma Contains_loop_exhausted:
  assumes "hasNext v (env v) = ((False, None), e1)"
  shows "Contains_loop eq x v = Some (Return (BoolV False), v\<lparr>env := e1\<rparr>)"
  using assms by (subst Contains_loop.simps) (simp add: HasNext_def)

lemma Contains_loop_panic:
  assumes "hasNext v (env v) = ((b, Some m), e1)"
  shows "Contains_loop eq x v = Some (Panic InterfaceConversion, v\<lparr>env := e1\<rparr>)"
  using assms by (subst Contains_loop.simps) (simp add: HasNext_def)

lemma Contains_loop_no_match:
  assumes "produces (hasNext v) (nextf v) (env v) xs = Some e'"
    and "hasNext v e' = ((False, None), e'')"
    and "\<forall>y\<in>set xs. eq (convert v y) x \<noteq> BoolV True"
  shows "Contains_loop eq x v =
    Some (Return (BoolV False),
          v\<lparr>cur := last (cur v # xs), index := index v + int (length xs), env := e''\<rparr>)"
  using assms
proof (induction xs arbitrary: v)
  case Nil
  then show ?case by (simp add: Contains_loop_exhausted)
next
  case (Cons y xs)
  from Cons.prems(1) obtain e1 e2 where
    h: "hasNext v (env v) = ((True, None), e1)" and n: "nextf v e1 = ((y, None), e2)"
    and p: "produces (hasNext v) (nextf v) e2 xs = Some e'"
    by (rule produces_Cons_elim)
  let ?v2 = "v\<lparr>cur := y, index := index v + 1, env := e2\<rparr>"
  have "Contains_loop eq x ?v2 =
    Some (Return (BoolV False),
          ?v2\<lparr>cur := last (cur ?v2 # xs), index := index ?v2 + int (length xs), env := e''\<rparr>)"
    by (rule Cons.IH) (use p Cons.prems(2,3) in simp_all)
  then show ?case
    using Cons.prems(3) by (simp add: Contains_loop_round [OF h n] add.assoc)
qed

lemma Contains_loop_match:
  assumes "produces (hasNext v) (nextf v) (env v) (pre @ [y]) = Some e'"
    and "\<forall>z\<in>set pre. eq (convert v z) x \<noteq> BoolV True"
    and "eq (convert v y) x = BoolV True"
  shows "Contains_loop eq x v =
    Some (Return (BoolV True),
          v\<lparr>cur := y, index := index v + int (length pre) + 1, env := e'\<rparr>)"
  using assms
proof (induction pre arbitrary: v)
  case Nil
  from Nil.prems(1) have "produces (hasNext v) (nextf v) (env v) (y # []) = Some e'"
    by simp
  then obtain e1 e2 where
    h: "hasNext v (env v) = ((True, None), e1)" and n0: "nextf v e1 = ((y, None), e2)"
    and "produces (hasNext v) (nextf v) e2 [] = Some e'"
    by (rule produces_Cons_elim)
  then have n: "nextf v e1 = ((y, None), e')" by simp
  show ?case using Nil.prems(3) by (simp add: Contains_loop_round [OF h n])
next
  case (Cons z pre)
  from Cons.prems(1)
  have "produces (hasNext v) (nextf v) (env v) (z # (pre @ [y])) = Some e'"
    by simp
  then obtain e1 e2 where
    h: "hasNext v (env v) = ((True, None), e1)" and n: "nextf v e1 = ((z, None), e2)"
    and p: "produces (hasNext v) (nextf v) e2 (pre @ [y]) = Some e'"
    by (rule produces_Cons_elim)
  let ?v2 = "v\<lparr>cur := z, index := index v + 1, env := e2\<rparr>"
  have "Contains_loop eq x ?v2 =
    Some (Return (BoolV True),
          ?v2\<lparr>cur := y, index := index ?v2 + int (length pre) + 1, env := e'\<rparr>)"
    by (rule Cons.IH) (use p Cons.prems(2,3) in simp_all)
  then show ?case
    using Cons.prems(2) by (simp add: Contains_loop_round [OF h n] add.assoc)
qed

lemma produces_take:
  assumes "produces hn nx e xs = Some e'"
  shows "\<exists>e1. produces hn nx e (take n xs) = Some e1"
proof -
  have "produces hn nx e (take n xs @ drop n xs) = Some e'"
    using assms by simp
  then have "(case produces hn nx e (take n xs) of None \<Rightarrow> None
      | Some e1 \<Rightarrow> produces hn nx e1 (drop n xs)) = Some e'"
    by (simp only: produces_append)
  then show ?thesis
    by (cases "produces hn nx e (take n xs)") simp_all
qed

lemma Get_loop_result:
  assumes "Get_loop k v = Some y"
  shows "index v \<le> k \<longrightarrow>
    (fst y = Return (ErrV ''index out of bounds during iterable access'') \<and> index (snd y) < k)
    \<or> (index (snd y) = k \<and> fst y = Return (convert (snd y) (cur (snd y))))
    \<or> (\<exists>p. fst y = Panic p)"
proof (rule Get_loop.raw_induct [where P = "\<lambda>k v y. index v \<le> k \<longrightarrow>
    (fst y = Return (ErrV ''index out of bounds during iterable access'') \<and> index (snd y) < k)
    \<or> (index (snd y) = k \<and> fst y = Return (convert (snd y) (cur (snd y))))
    \<or> (\<exists>p. fst y = Panic p)", OF _ assms], goal_cases)
  case (1 f k v y)
  show ?case
  proof (cases "index v < k")
    case False
    with 1(2) show ?thesis by auto
  next
    case True
    obtain rv v1 where h: "HasNext v = (rv, v1)" by (cases "HasNext v")
    obtain r2 v2 where n: "Next v1 = (r2, v2)" by (cases "Next v1")
    have i1: "index v1 = index v"
      using h by (rule HasNext_index)
    have i2: "index v2 \<le> index v1 + 1"
      using n by (auto simp: Next_def split: prod.splits option.splits)
    show ?thesis
      using 1(2) True h n i1 i2 1(1) [of k v2 y]
      by (auto split: outcome.splits if_splits)
  qed
qed

lemma FromSeq_fields:
  "index (FromSeq zero ntv seq cv) = - 1"
  "cur (FromSeq zero ntv seq cv) = zero"
  "hasNext (FromSeq zero ntv seq cv) = FromSeq_hasNext (fst seq) zero"
  "nextf (FromSeq zero ntv seq cv) = FromSeq_getNext"
  "convert (FromSeq zero ntv seq cv) = (case cv of None \<Rightarrow> ntv | Some c \<Rightarrow> c)"
  "env (FromSeq zero ntv seq cv) = \<lparr>slot = zero, coro = Some (snd seq)\<rparr>"
  by (simp_all add: FromSeq_def New_def)

lemma FromSeq_produces:
  assumes "yields resume g xs = Some g'"
  shows "produces (FromSeq_hasNext resume zero) FromSeq_getNext \<lparr>slot = c, coro = Some g\<rparr> xs
    = Some \<lparr>slot = last (c # xs), coro = Some g'\<rparr>"
  using assms
proof (induction xs arbitrary: g c)
  case Nil
  then show ?case by simp
next
  case (Cons x xs)
  from Cons.prems obtain g1 where r: "resume g = Some (x, g1)"
    and y: "yields resume g1 xs = Some g'"
    by (auto split: option.splits if_splits)
  from Cons.IH [OF y, of x] r show ?case
    by (simp add: FromSeq_hasNext_def pullNext_def FromSeq_getNext_def)
qed

lemma FromSeq_hasNext_done:
  assumes "coro s = None \<or> (\<exists>g. coro s = Some g \<and> resume g = None)"
  shows "FromSeq_hasNext resume zero s = ((False, None), \<lparr>slot = zero, coro = None\<rparr>)"
  using assms by (auto simp: FromSeq_hasNext_def pullNext_def pullStop_def)

lemma FromSeq_staysEmpty:
  assumes "coro s = None \<or> (\<exists>g. coro s = Some g \<and> resume g = None)"
  shows "staysEmpty (FromSeq_hasNext resume zero) s k"
  using assms
proof (induction k arbitrary: s)
  case 0
  then show ?case by simp
next
  case (Suc k)
  have "staysEmpty (FromSeq_hasNext resume zero) \<lparr>slot = zero, coro = None\<rparr> k"
    by (rule Suc.IH) simp
  then show ?case
    by (simp add: FromSeq_hasNext_done [OF Suc.prems])
qed

lemma FromSeq_wellBehaved:
  assumes "generates seq xs"
  shows "wellBehaved (hasNext (FromSeq zero ntv seq cv)) (nextf (FromSeq zero ntv seq cv))
    (env (FromSeq zero ntv seq cv)) xs"
proof -
  from assms obtain g' where y: "yields (fst seq) (snd seq) xs = Some g'"
    and d: "fst seq g' = None"
    by (auto simp: generates_def split: option.splits)
  have "\<forall>k. staysEmpty (FromSeq_hasNext (fst seq) zero)
    \<lparr>slot = last (zero # xs), coro = Some g'\<rparr> k"
    by (intro allI FromSeq_staysEmpty) (simp add: d)
  with FromSeq_produces [OF y, of zero zero] show ?thesis
    by (simp add: wellBehaved_def FromSeq_fields del: last.simps)
qed

lemma yields_slice: "yields sliceResume (xs @ ys) xs = Some ys"
  by (induction xs) simp_all

lemma generates_slicesValues: "generates (slicesValues xs) xs"
  using yields_slice [of xs "[]"] by (simp add: generates_def slicesValues_def)

lemma testCursor_wellBehaved:
  "wellBehaved (hasNext testCursor) (nextf testCursor) (env testCursor) testValues"
  unfolding testCursor_def by (rule FromSeq_wellBehaved) (rule generates_slicesValues)

lemma testCursor_fields:
  "index testCursor = - 1" "cur testCursor = []"
  "hasNext testCursor = FromSeq_hasNext sliceResume []"
  "nextf testCursor = FromSeq_getNext" "convert testCursor = StringV"
  "env testCursor = \<lparr>slot = [], coro = Some testValues\<rparr>"
  by (simp_all add: testCursor_def FromSeq_fields slicesValues_def)

lemma fibCursor_fields:
  "index fibCursor = - 1" "cur fibCursor = 0"
  "hasNext fibCursor = FromSeq_hasNext fibResume 0"
  "nextf fibCursor = FromSeq_getNext" "convert fibCursor = IntV"
  "env fibCursor = \<lparr>slot = 0, coro = Some (0, 1)\<rparr>"
  by (simp_all add: fibCursor_def FromSeq_fields fibSeq_def)

lemma fib_yields:
  "yields fibResume (0, 1) [0, 1, 1, 2, 3, 5, 8, 13, 21, 34, 55] = Some (89, 144)"
  by (simp add: fibResume_def wrap64_def)

lemma testCursor_produces:
  "produces (hasNext testCursor) (nextf testCursor) (env testCursor) testValues
     = Some \<lparr>slot = ''sample'', coro = Some []\<rparr>"
  using FromSeq_produces [OF yields_slice [of testValues "[]"], of "[]" "[]"]
  by (simp add: testCursor_fields) (simp add: testValues_def)

lemma testCursor_Get1:
  "Get (IntV 1) testCursor =
     Some (Return (StringV ''example''),
           testCursor\<lparr>cur := ''example'', index := 1,
                       env := \<lparr>slot = ''example'', coro = Some [''sample'']\<rparr>\<rparr>)"
proof -
  have y: "yields sliceResume testValues [''test'', ''example''] = Some [''sample'']"
    by (simp add: testValues_def)
  have p: "produces (hasNext testCursor) (nextf testCursor) (env testCursor)
      [''test'', ''example''] = Some \<lparr>slot = ''example'', coro = Some [''sample'']\<rparr>"
    using FromSeq_produces [OF y, of "[]" "[]"] by (simp add: testCursor_fields)
  from Get_loop_produces [OF p] show ?thesis
    by (simp add: Get_def testCursor_fields)
qed

lemma testCursor_Size:
  "Size testCursor =
     Some (Return (IntV 3),
           testCursor\<lparr>cur := ''sample'', index := 2, env := \<lparr>slot = [], coro = None\<rparr>\<rparr>)"
proof -
  have h: "hasNext testCursor \<lparr>slot = ''sample'', coro = Some []\<rparr>
      = ((False, None), \<lparr>slot = [], coro = None\<rparr>)"
    by (simp add: testCursor_fields FromSeq_hasNext_done)
  from Size_loop_produces [OF testCursor_produces h, of 0] show ?thesis
    by (simp add: Size_def testCursor_fields testValues_def)
qed

lemma flakyCursor_fields:
  "index flakyCursor = - 1" "cur flakyCursor = []"
  "hasNext flakyCursor = alwaysHasNext" "nextf flakyCursor = flakyNext"
  "convert flakyCursor = StringV" "env flakyCursor = 0"
  by (simp_all add: flakyCursor_def New_def)

lemma Get_current:
  "0 \<le> index v \<Longrightarrow> Get (IntV (index v)) v = Some (Return (convert v (cur v)), v)"
  by (simp add: Get_def Get_loop_done)

lemma testCursor_run:
  "map_option (\<lambda>(rs, v). (rs, index v))
     (run (\<lambda>s :: string. Some ''string'') (=) id hostEqual 0
       [OpHasNext, OpNext, OpGet (IntV 1), OpEqual (IterV 0), OpConvertToNative ''string'',
        OpContains (StringV ''sample''), OpSize] testCursor) =
   Some ([Return (Host (BoolV True)), Return (Host (StringV ''test'')),
          Return (Host (StringV ''example'')), Return (Host (BoolV True)),
          Return (Native (Inr ''example'')), Return (Host (BoolV True)),
          Return (Host (IntV 0))], 2)"
  by code_simp

lemma failingCursor_fields:
  "index failingCursor = - 1" "cur failingCursor = []"
  "hasNext failingCursor = failingHasNext"
  "convert failingCursor = StringV" "env failingCursor = ()"
  by (simp_all add: failingCursor_def New_def)

lemma AsSeq_loop_round:
  assumes "hasNext v (env v) = ((True, None), e1)" and "nextf v e1 = ((x, None), e2)"
    and "cvt (convert v x) = Return t" and "yield t c = (True, c')"
  shows "AsSeq_loop cvt yield c v =
    AsSeq_loop cvt yield c' (v\<lparr>cur := x, index := index v + 1, env := e2\<rparr>)"
  using assms by (subst AsSeq_loop.simps) (simp add: HasNext_def Next_def)

lemma AsSeq_loop_exhausted:
  assumes "hasNext v (env v) = ((False, None), e1)"
  shows "AsSeq_loop cvt yield c v = Some (Return (), c, v\<lparr>env := e1\<rparr>)"
  using assms by (subst AsSeq_loop.simps) (simp add: HasNext_def)

lemma AsSeq_loop_collect:
  assumes "produces (hasNext v) (nextf v) (env v) xs = Some e'"
    and "hasNext v e' = ((False, None), e'')"
    and "\<forall>x\<in>set xs. cvt (convert v x) = Return (f x)"
  shows "AsSeq_loop cvt (\<lambda>t acc. (True, acc @ [t])) acc v =
    Some (Return (), acc @ map f xs,
          v\<lparr>cur := last (cur v # xs), index := index v + int (length xs), env := e''\<rparr>)"
  using assms
proof (induction xs arbitrary: v acc)
  case Nil
  then show ?case by (simp add: AsSeq_loop_exhausted)
next
  case (Cons x xs)
  from Cons.prems(1) obtain e1 e2 where
    h: "hasNext v (env v) = ((True, None), e1)" and n: "nextf v e1 = ((x, None), e2)"
    and p: "produces (hasNext v) (nextf v) e2 xs = Some e'"
    by (rule produces_Cons_elim)
  let ?v2 = "v\<lparr>cur := x, index := index v + 1, env := e2\<rparr>"
  have c: "cvt (convert v x) = Return (f x)" using Cons.prems(3) by simp
  have step: "AsSeq_loop cvt (\<lambda>t acc. (True, acc @ [t])) acc v =
    AsSeq_loop cvt (\<lambda>t acc. (True, acc @ [t])) (acc @ [f x]) ?v2"
    by (rule AsSeq_loop_round [where cvt = cvt and t = "f x", OF h n c]) simp
  have "AsSeq_loop cvt (\<lambda>t acc. (True, acc @ [t])) (acc @ [f x]) ?v2 =
    Some (Return (), (acc @ [f x]) @ map f xs,
          ?v2\<lparr>cur := last (cur ?v2 # xs), index := index ?v2 + int (length xs), env := e''\<rparr>)"
    by (rule Cons.IH) (use p Cons.prems(2,3) in simp_all)
  then show ?case
    by (simp add: step add.assoc)
qed

lemma stuckCursor_fields:
  "index stuckCursor = - 1" "cur stuckCursor = []"
  "hasNext stuckCursor = alwaysHasNext"
  "nextf stuckCursor = (\<lambda>s. (([], Some ''no next element''), s))"
  "convert stuckCursor = StringV" "env stuckCursor = 0"
  by (simp_all add: stuckCursor_def New_def)

lemma stuckCursor_HasNext: "HasNext stuckCursor = (BoolV True, stuckCursor)"
  by (simp add: HasNext_def stuckCursor_fields alwaysHasNext_def)

lemma stuckCursor_Next:
  "Next stuckCursor = (ErrV ''error getting next element: no next element'', stuckCursor)"
  by (simp add: Next_def stuckCursor_fields)

lemma stuckCursor_Get_loop: "Get_loop 0 stuckCursor = None"
proof (cases "Get_loop 0 stuckCursor")
  case None
  then show ?thesis .
next
  case (Some y)
  have "\<not> (0 = (0 :: int) \<and> stuckCursor = stuckCursor)"
  proof (rule Get_loop.raw_induct
      [where P = "\<lambda>k v y. \<not> (k = 0 \<and> v = stuckCursor)", OF _ Some], goal_cases)
    case (1 f k v y)
    show ?case
    proof
      assume "k = 0 \<and> v = stuckCursor"
      with 1(2) have "f 0 stuckCursor = Some y"
        by (simp add: stuckCursor_HasNext stuckCursor_Next stuckCursor_fields)
      from 1(1) [OF this] show False by simp
    qed
  qed
  then show ?thesis by simp
qed

lemma stuckCursor_Get: "Get (IntV 0) stuckCursor = None"
  by (simp add: Get_def stuckCursor_fields stuckCursor_Get_loop)

lemma intCursor_fields:
  "index intCursor = - 1" "cur intCursor = 0"
  "hasNext intCursor = FromSeq_hasNext sliceResume 0"
  "nextf intCursor = FromSeq_getNext" "convert intCursor = IntV"
  "env intCursor = \<lparr>slot = 0, coro = Some intValues\<rparr>"
  by (simp_all add: intCursor_def FromSeq_fields slicesValues_def)

lemma intCursor_export:
  "AsSeq_loop (valueAsGoInt Map.empty) (\<lambda>t acc. (True, acc @ [t])) [] intCursor =
     Some (Panic InterfaceConversion, [],
           intCursor\<lparr>cur := 1, index := 0, env := \<lparr>slot = 1, coro = Some [2, 3]\<rparr>\<rparr>)"
  by (subst AsSeq_loop.simps)
    (simp add: HasNext_def Next_def intCursor_fields intValues_def FromSeq_hasNext_def
      pullNext_def FromSeq_getNext_def)

section \<open>Producer errors\<close>

text \<open>
  Claim C1 says that every producer error comes back as a host error value, never as a
  fault, and at once. \<open>HasNext\<close> and \<open>Next\<close> do return the error value. \<open>Size\<close>,
  \<open>Contains\<close> and \<open>Get\<close> assert the result of \<open>HasNext\<close> to be a \<^verbatim>\<open>bool\<close>: on the cursor
  whose availability check fails, all three panic. And \<open>Get\<close> drops the result of
  \<open>Next\<close>: on the cursor whose first advance fails, \<open>Get 0\<close> goes round the loop again
  and returns the element of the second advance instead of the error; on the cursor
  whose advance always fails while its availability check stays true, \<open>Get 0\<close> never
  returns.
\<close>

theorem producer_error_faults:
  "HasNext failingCursor = (ErrV ''error checking for next element: boom'', failingCursor) \<and>
   Size failingCursor = Some (Panic InterfaceConversion, failingCursor) \<and>
   Contains hostEqual (StringV ''test'') failingCursor
     = Some (Panic InterfaceConversion, failingCursor) \<and>
   Get (IntV 0) failingCursor = Some (Panic InterfaceConversion, failingCursor) \<and>
   Next (flakyCursor\<lparr>env := 0\<rparr>)
     = (ErrV ''error getting next element: boom'', flakyCursor\<lparr>env := 1\<rparr>) \<and>
   Get (IntV 0) flakyCursor
     = Some (Return (StringV ''a''), flakyCursor\<lparr>cur := ''a'', index := 0, env := 2\<rparr>) \<and>
   Next stuckCursor
     = (ErrV ''error getting next element: no next element'', stuckCursor) \<and>
   Get (IntV 0) stuckCursor = None"
proof -
  have h: "hasNext failingCursor (env failingCursor) = ((False, Some ''boom''), ())"
    by (simp add: failingCursor_fields failingHasNext_def)
  have u: "failingCursor\<lparr>env := ()\<rparr> = failingCursor"
    by simp
  have a: "HasNext failingCursor
      = (ErrV ''error checking for next element: boom'', failingCursor)"
    using HasNext_err [OF h] by (simp add: u)
  have b: "Size failingCursor = Some (Panic InterfaceConversion, failingCursor)"
    using Size_loop_panic [OF h, of 0] by (simp add: Size_def u)
  have c: "Contains hostEqual (StringV ''test'') failingCursor
      = Some (Panic InterfaceConversion, failingCursor)"
    using Contains_loop_panic [OF h, of hostEqual "StringV ''test''"]
    by (simp add: Contains_def u)
  have lt: "index failingCursor < 0" by (simp add: failingCursor_fields)
  have d: "Get (IntV 0) failingCursor = Some (Panic InterfaceConversion, failingCursor)"
    using Get_loop_panic [OF lt h] by (simp add: Get_def failingCursor_fields u)
  have e: "Next (flakyCursor\<lparr>env := 0\<rparr>)
     = (ErrV ''error getting next element: boom'', flakyCursor\<lparr>env := 1\<rparr>)"
    by (simp add: Next_def flakyCursor_fields flakyNext_def)
  have l1: "Get_loop 0 flakyCursor = Get_loop 0 (flakyCursor\<lparr>env := 1\<rparr>)"
    by (subst Get_loop.simps)
      (simp add: HasNext_def Next_def flakyCursor_fields alwaysHasNext_def flakyNext_def)
  have l2: "Get_loop 0 (flakyCursor\<lparr>env := 1\<rparr>)
      = Get_loop 0 (flakyCursor\<lparr>cur := ''a'', index := 0, env := 2\<rparr>)"
    by (subst Get_loop.simps)
      (simp add: HasNext_def Next_def flakyCursor_fields alwaysHasNext_def flakyNext_def
        numeral_2_eq_2)
  have l3: "Get_loop 0 (flakyCursor\<lparr>cur := ''a'', index := 0, env := 2\<rparr>)
      = Some (Return (StringV ''a''), flakyCursor\<lparr>cur := ''a'', index := 0, env := 2\<rparr>)"
    by (simp add: Get_loop_done flakyCursor_fields)
  have f: "Get (IntV 0) flakyCursor
     = Some (Return (StringV ''a''), flakyCursor\<lparr>cur := ''a'', index := 0, env := 2\<rparr>)"
  proof -
    have "Get_loop 0 flakyCursor
      = Some (Return (StringV ''a''), flakyCursor\<lparr>cur := ''a'', index := 0, env := 2\<rparr>)"
      by (simp only: l1 l2 l3)
    then show ?thesis
      by (simp add: Get_def flakyCursor_fields)
  qed
  from a b c d e f stuckCursor_Next stuckCursor_Get show ?thesis by blast
qed

section \<open>Round trip\<close>

text \<open>
  Claim C2 as stated fails on a generator over Go \<^verbatim>\<open>int\<close>s when the two
  conversions are the defaults of \<^verbatim>\<open>FromSeq\<close> and \<^verbatim>\<open>AsSeq\<close>. The generator over
  \<open>1, 2, 3\<close> yields these three elements when run directly; imported and exported
  again it yields nothing: the first element is imported as a \<^verbatim>\<open>types.Int\<close>, whose
  payload is an \<^verbatim>\<open>int64\<close>, and the export's \<^verbatim>\<open>val.Value().(int)\<close> panics on it.
\<close>

theorem round_trip_defaults_counterexample:
  "generates (slicesValues intValues) intValues \<and>
   slicesCollect (AsSeq (valueAsGoInt Map.empty) (Inr intCursor) None) =
     Some (Panic InterfaceConversion, [],
           Inr (intCursor\<lparr>cur := 1, index := 0, env := \<lparr>slot = 1, coro = Some [2, 3]\<rparr>\<rparr>)) \<and>
   intValues \<noteq> []"
  by (simp add: generates_slicesValues slicesCollect_def AsSeq_def intCursor_export)
    (simp add: intValues_def)

text \<open>
  Claim C2, amended. Let the generator \<open>seq\<close>, run directly, yield exactly \<open>xs\<close> and
  return. Importing it with \<open>FromSeq\<close> and collecting what \<open>AsSeq\<close> exports gives
  \<open>xs\<close>, in order, provided the conversion of the export undoes the conversion of the
  import on the elements of \<open>xs\<close> (as \<^verbatim>\<open>v.Value().(string)\<close> undoes
  \<^verbatim>\<open>types.String(v)\<close>); either conversion may be the default one.
\<close>

theorem round_trip:
  assumes "generates seq xs"
    and "\<forall>x\<in>set xs. (case back of None \<Rightarrow> valueAs | Some f \<Rightarrow> f)
                        ((case cv of None \<Rightarrow> nativeToValue | Some c \<Rightarrow> c) x) = Return x"
  shows "\<exists>v'. slicesCollect (AsSeq valueAs (Inr (FromSeq zero nativeToValue seq cv)) back)
    = Some (Return (), xs, Inr v')"
proof -
  let ?v = "FromSeq zero nativeToValue seq cv"
  let ?cvt = "case back of None \<Rightarrow> valueAs | Some f \<Rightarrow> f"
  from FromSeq_wellBehaved [OF assms(1), of zero nativeToValue cv]
  obtain e' where p: "produces (hasNext ?v) (nextf ?v) (env ?v) xs = Some e'"
    and s: "\<forall>n. staysEmpty (hasNext ?v) e' n"
    by (auto simp: wellBehaved_def split: option.splits)
  from s obtain e'' where h: "hasNext ?v e' = ((False, None), e'')"
    by (rule staysEmpty_step)
  have c: "\<forall>x\<in>set xs. ?cvt (convert ?v x) = Return (id x)"
    using assms(2) by (simp add: FromSeq_fields)
  from AsSeq_loop_collect [OF p h c, of "[]"]
  show ?thesis
    by (simp add: slicesCollect_def AsSeq_def)
qed

theorem round_trip_witness:
  "generates (slicesValues testValues) testValues \<and>
   valueAsString (StringV ''test'') = Return ''test'' \<and>
   valueAsString (StringV ''example'') = Return ''example'' \<and>
   valueAsString (StringV ''sample'') = Return ''sample'' \<and>
   map_option (\<lambda>(r, ys, v). (r, ys))
     (slicesCollect (AsSeq valueAsString (Inr testCursor) (Some valueAsString)))
     = Some (Return (), [''test'', ''example'', ''sample''])"
proof -
  have g: "generates (slicesValues testValues) testValues"
    by (rule generates_slicesValues)
  have b: "\<forall>x\<in>set testValues. (case Some valueAsString of None \<Rightarrow> valueAsString | Some f \<Rightarrow> f)
      ((case Some StringV of None \<Rightarrow> StringV | Some c \<Rightarrow> c) x) = Return x"
    by simp
  from round_trip [OF g b, of "[]"]
  have "map_option (\<lambda>(r, ys, v). (r, ys))
     (slicesCollect (AsSeq valueAsString (Inr testCursor) (Some valueAsString)))
     = Some (Return (), testValues)"
    by (auto simp: testCursor_def)
  with g show ?thesis by (simp add: testValues_def)
qed

section \<open>Indexed access on a fresh cursor\<close>

text \<open>
  Claim C3. On a fresh cursor (\<open>index = -1\<close>) over a producer whose first elements are
  \<open>xs\<close> (a producer of that length or a longer one, also an endless one), \<open>Get i\<close>
  for \<open>i < length xs\<close> returns the conversion of the \<open>(i+1)\<close>-th element. The cursor
  is left at index \<open>i\<close> on that element, and the producer in the state \<open>e1\<close> it has
  after exactly \<open>i + 1\<close> rounds of availability check and advance: nothing beyond
  index \<open>i\<close> has been drawn.
\<close>

theorem Get_fresh:
  assumes "index v = - 1" and "produces (hasNext v) (nextf v) (env v) xs = Some e'"
    and "i < length xs"
  shows "\<exists>e1. produces (hasNext v) (nextf v) (env v) (take (Suc i) xs) = Some e1 \<and>
    Get (IntV (int i)) v =
      Some (Return (convert v (xs ! i)), v\<lparr>cur := xs ! i, index := int i, env := e1\<rparr>)"
proof -
  let ?ys = "take (Suc i) xs"
  from produces_take [OF assms(2)] obtain e1 where
    p: "produces (hasNext v) (nextf v) (env v) ?ys = Some e1"
    by blast
  have ne: "?ys \<noteq> []" using assms(3) by auto
  have len: "index v + int (length ?ys) = int i" using assms(1,3) by simp
  have la: "last ?ys = xs ! i"
    using assms(3) by (simp add: take_Suc_conv_app_nth)
  have "Get_loop (index v + int (length ?ys)) v =
    Some (Return (convert v (last ?ys)),
          v\<lparr>cur := last ?ys, index := index v + int (length ?ys), env := e1\<rparr>)"
    using p ne by (rule Get_loop_produces)
  then have "Get_loop (int i) v =
    Some (Return (convert v (xs ! i)), v\<lparr>cur := xs ! i, index := int i, env := e1\<rparr>)"
    by (simp only: len la)
  then have "Get (IntV (int i)) v =
    Some (Return (convert v (xs ! i)), v\<lparr>cur := xs ! i, index := int i, env := e1\<rparr>)"
    using assms(1) by (simp add: Get_def)
  with p show ?thesis by blast
qed

theorem Get_fresh_witness:
  "index fibCursor = - 1 \<and>
   produces (hasNext fibCursor) (nextf fibCursor) (env fibCursor)
     [0, 1, 1, 2, 3, 5, 8, 13, 21, 34, 55] = Some \<lparr>slot = 55, coro = Some (89, 144)\<rparr> \<and>
   (10 :: nat) < length [0 :: int, 1, 1, 2, 3, 5, 8, 13, 21, 34, 55] \<and>
   Get (IntV 10) fibCursor =
     Some (Return (IntV 55),
           fibCursor\<lparr>cur := 55, index := 10, env := \<lparr>slot = 55, coro = Some (89, 144)\<rparr>\<rparr>)"
proof -
  let ?xs = "[0 :: int, 1, 1, 2, 3, 5, 8, 13, 21, 34, 55]"
  have i: "index fibCursor = - 1" by (simp add: fibCursor_fields)
  have p: "produces (hasNext fibCursor) (nextf fibCursor) (env fibCursor) ?xs
    = Some \<lparr>slot = 55, coro = Some (89, 144)\<rparr>"
    using FromSeq_produces [OF fib_yields, of 0 0] by (simp add: fibCursor_fields)
  have l: "(10 :: nat) < length ?xs" by simp
  from Get_fresh [OF i p l] p have "Get (IntV 10) fibCursor =
     Some (Return (IntV 55),
           fibCursor\<lparr>cur := 55, index := 10, env := \<lparr>slot = 55, coro = Some (89, 144)\<rparr>\<rparr>)"
    by (simp add: fibCursor_fields)
  with i p l show ?thesis by blast
qed

section \<open>The checks of Get\<close>

text \<open>
  Claim C4. \<open>Get\<close> validates in order: a key that is not an integer gives the error
  "invalid key type"; a negative integer gives "index cannot be negative"; a key below the
  current index gives "index already passed", so that after a \<open>Get j\<close> that delivered an
  element, \<open>Get i\<close> with \<open>0 \<le> i < j\<close> fails with that error; and when a well-behaved
  producer with the remaining elements \<open>xs\<close> is exhausted before the key is reached
  (on a fresh cursor: any key from \<open>length xs\<close> on) the result is "index out of bounds".
\<close>

theorem Get_validation:
  "(typeOfVal key \<noteq> IntType \<longrightarrow>
      Get key v = Some (Return (ErrV (''invalid key type for iterable: ''
                                      @ typeName (typeOfVal key) @ '', must be int'')), v)) \<and>
   (k < 0 \<longrightarrow> Get (IntV k) v = Some (Return (ErrV ''index cannot be negative''), v)) \<and>
   (0 \<le> k \<and> k < index v \<longrightarrow>
      Get (IntV k) v = Some (Return (ErrV ''index already passed''), v)) \<and>
   (0 \<le> i \<and> i < j \<and> Get (IntV j) v = Some (Return r, v') \<and> typeOfVal r \<noteq> ErrorType \<longrightarrow>
      Get (IntV i) v' = Some (Return (ErrV ''index already passed''), v')) \<and>
   (wellBehaved (hasNext v) (nextf v) (env v) xs \<and> 0 \<le> k \<and> index v + int (length xs) < k \<longrightarrow>
      (\<exists>v'. Get (IntV k) v =
              Some (Return (ErrV ''index out of bounds during iterable access''), v')))"
proof (intro conjI impI)
  assume "typeOfVal key \<noteq> IntType"
  then show "Get key v = Some (Return (ErrV (''invalid key type for iterable: ''
                                      @ typeName (typeOfVal key) @ '', must be int'')), v)"
    by (simp add: Get_def)
next
  assume "k < 0"
  then show "Get (IntV k) v = Some (Return (ErrV ''index cannot be negative''), v)"
    by (simp add: Get_def)
next
  assume "0 \<le> k \<and> k < index v"
  then show "Get (IntV k) v = Some (Return (ErrV ''index already passed''), v)"
    by (simp add: Get_def)
next
  assume a: "0 \<le> i \<and> i < j \<and> Get (IntV j) v = Some (Return r, v') \<and> typeOfVal r \<noteq> ErrorType"
  then have g: "Get (IntV j) v = Some (Return r, v')" and ne: "typeOfVal r \<noteq> ErrorType"
    and ij: "0 \<le> i" "i < j" by simp_all
  from g ne ij have le: "index v \<le> j" and l: "Get_loop j v = Some (Return r, v')"
    by (auto simp: Get_def split: if_splits)
  from Get_loop_result [OF l] le ne have "index v' = j"
    by auto
  with ij show "Get (IntV i) v' = Some (Return (ErrV ''index already passed''), v')"
    by (simp add: Get_def)
next
  assume a: "wellBehaved (hasNext v) (nextf v) (env v) xs \<and> 0 \<le> k
    \<and> index v + int (length xs) < k"
  then obtain e' where p: "produces (hasNext v) (nextf v) (env v) xs = Some e'"
    and s: "\<forall>n. staysEmpty (hasNext v) e' n"
    by (auto simp: wellBehaved_def split: option.splits)
  from s obtain e'' where h: "hasNext v e' = ((False, None), e'')"
    by (rule staysEmpty_step)
  from a have lt: "index v + int (length xs) < k" by simp
  from a have "\<not> k < index v" by simp
  with a Get_loop_out_of_bounds [OF p h lt]
  show "\<exists>v'. Get (IntV k) v =
              Some (Return (ErrV ''index out of bounds during iterable access''), v')"
    by (simp add: Get_def)
qed

theorem Get_validation_witness:
  "typeOfVal (StringV ''0'') \<noteq> IntType \<and>
   Get (StringV ''0'') testCursor =
     Some (Return (ErrV ''invalid key type for iterable: string, must be int''), testCursor) \<and>
   Get (IntV (- 1)) testCursor = Some (Return (ErrV ''index cannot be negative''), testCursor) \<and>
   Get (IntV 1) testCursor =
     Some (Return (StringV ''example''),
           testCursor\<lparr>cur := ''example'', index := 1,
                       env := \<lparr>slot = ''example'', coro = Some [''sample'']\<rparr>\<rparr>) \<and>
   typeOfVal (StringV ''example'') \<noteq> ErrorType \<and>
   Get (IntV 0) (testCursor\<lparr>cur := ''example'', index := 1,
                       env := \<lparr>slot = ''example'', coro = Some [''sample'']\<rparr>\<rparr>) =
     Some (Return (ErrV ''index already passed''),
           testCursor\<lparr>cur := ''example'', index := 1,
                       env := \<lparr>slot = ''example'', coro = Some [''sample'']\<rparr>\<rparr>) \<and>
   wellBehaved (hasNext testCursor) (nextf testCursor) (env testCursor) testValues \<and>
   index testCursor + int (length testValues) < 3 \<and>
   map_option fst (Get (IntV 3) testCursor) =
     Some (Return (ErrV ''index out of bounds during iterable access''))"
proof -
  let ?at1 = "testCursor\<lparr>cur := ''example'', index := 1,
                       env := \<lparr>slot = ''example'', coro = Some [''sample'']\<rparr>\<rparr>"
  have t: "typeOfVal (StringV ''0'') \<noteq> IntType" by simp
  have c1: "Get (StringV ''0'') testCursor =
     Some (Return (ErrV ''invalid key type for iterable: string, must be int''), testCursor)"
    using Get_validation [of "StringV ''0''" testCursor] by simp
  have c2: "Get (IntV (- 1)) testCursor =
     Some (Return (ErrV ''index cannot be negative''), testCursor)"
    using Get_validation [of _ testCursor "- 1"] by simp
  have ne: "typeOfVal (StringV ''example'') \<noteq> ErrorType" by simp
  have c4: "Get (IntV 0) ?at1 = Some (Return (ErrV ''index already passed''), ?at1)"
    using Get_validation [of _ testCursor _ 0 1 "StringV ''example''" ?at1] testCursor_Get1
    by simp
  have c3: "Get (IntV 0) ?at1 = Some (Return (ErrV ''index already passed''), ?at1)"
    using Get_validation [of _ ?at1 0] by simp
  have lt: "index testCursor + int (length testValues) < 3"
    by (simp add: testCursor_fields testValues_def)
  have "\<exists>v'. Get (IntV 3) testCursor =
      Some (Return (ErrV ''index out of bounds during iterable access''), v')"
    using Get_validation [of _ testCursor 3 _ _ _ _ testValues] testCursor_wellBehaved lt
    by simp
  then have c5: "map_option fst (Get (IntV 3) testCursor) =
     Some (Return (ErrV ''index out of bounds during iterable access''))"
    by auto
  from t c1 c2 c3 testCursor_Get1 ne c4 testCursor_wellBehaved lt c5 show ?thesis
    by blast
qed

section \<open>Size\<close>

text \<open>
  Claim C5. On a fresh cursor over a well-behaved producer of length \<open>length xs\<close>,
  \<open>Size\<close> returns that length after one advance per element (the index ends at
  \<open>length xs - 1\<close>) and leaves the cursor exhausted: the next availability check answers
  false, and so does every later one.
\<close>

theorem Size_drains:
  assumes "index v = - 1" and "wellBehaved (hasNext v) (nextf v) (env v) xs"
  shows "\<exists>v'. Size v = Some (Return (IntV (int (length xs))), v') \<and>
    index v' = int (length xs) - 1 \<and>
    fst (HasNext v') = BoolV False \<and>
    (\<forall>n. staysEmpty (hasNext v') (env v') n)"
proof -
  from assms(2) obtain e' where p: "produces (hasNext v) (nextf v) (env v) xs = Some e'"
    and s: "\<forall>n. staysEmpty (hasNext v) e' n"
    by (auto simp: wellBehaved_def split: option.splits)
  from s obtain e'' where h: "hasNext v e' = ((False, None), e'')"
    and s': "\<forall>n. staysEmpty (hasNext v) e'' n"
    by (rule staysEmpty_step)
  from s' obtain e3 where h': "hasNext v e'' = ((False, None), e3)"
    by (rule staysEmpty_step)
  let ?v' = "v\<lparr>cur := last (cur v # xs), index := index v + int (length xs), env := e''\<rparr>"
  have "Size v = Some (Return (IntV (int (length xs))), ?v')"
    using Size_loop_produces [OF p h, of 0] by (simp add: Size_def)
  moreover have "index ?v' = int (length xs) - 1" using assms(1) by simp
  moreover have "fst (HasNext ?v') = BoolV False"
    using h' by (simp add: HasNext_def)
  moreover have "\<forall>n. staysEmpty (hasNext ?v') (env ?v') n" using s' by simp
  ultimately show ?thesis by blast
qed

theorem Size_drains_witness:
  "index testCursor = - 1 \<and>
   wellBehaved (hasNext testCursor) (nextf testCursor) (env testCursor) testValues \<and>
   Size testCursor =
     Some (Return (IntV 3),
           testCursor\<lparr>cur := ''sample'', index := 2, env := \<lparr>slot = [], coro = None\<rparr>\<rparr>) \<and>
   fst (HasNext (testCursor\<lparr>cur := ''sample'', index := 2,
                            env := \<lparr>slot = [], coro = None\<rparr>\<rparr>)) = BoolV False"
proof -
  have i: "index testCursor = - 1" by (simp add: testCursor_fields)
  from Size_drains [OF i testCursor_wellBehaved] obtain v' where
    s: "Size testCursor = Some (Return (IntV (int (length testValues))), v')"
    and h: "fst (HasNext v') = BoolV False"
    by blast
  from s testCursor_Size have
    "v' = testCursor\<lparr>cur := ''sample'', index := 2, env := \<lparr>slot = [], coro = None\<rparr>\<rparr>"
    by simp
  with h i testCursor_wellBehaved testCursor_Size show ?thesis by simp
qed

section \<open>Containment\<close>

text \<open>
  Claim C6. On a cursor whose well-behaved producer still has the elements \<open>xs\<close> to
  deliver, \<open>Contains x\<close> returns true exactly when the conversion of some element of
  \<open>xs\<close> is host-equal to \<open>x\<close>. With \<open>pre\<close> the elements before the first match: when
  there is a match the cursor has advanced \<open>length pre + 1\<close> times and stands on the
  match, and the elements after it are still delivered by the same producer; when
  there is none the cursor has advanced over all of \<open>xs\<close> and is exhausted.
\<close>

theorem Contains_spec:
  assumes "wellBehaved (hasNext v) (nextf v) (env v) xs"
  shows "\<exists>v'. Contains equal x v =
      Some (Return (BoolV (\<exists>y\<in>set xs. equal (convert v y) x = BoolV True)), v') \<and>
    hasNext v' = hasNext v \<and> nextf v' = nextf v \<and> convert v' = convert v \<and>
    (let pre = takeWhile (\<lambda>y. equal (convert v y) x \<noteq> BoolV True) xs in
       if pre = xs then
         index v' = index v + int (length xs) \<and> (\<forall>n. staysEmpty (hasNext v') (env v') n)
       else
         index v' = index v + int (length pre) + 1 \<and> cur v' = xs ! length pre \<and>
         wellBehaved (hasNext v') (nextf v') (env v') (drop (Suc (length pre)) xs))"
proof -
  let ?m = "\<lambda>y. equal (convert v y) x \<noteq> BoolV True"
  let ?pre = "takeWhile ?m xs"
  from assms obtain e' where p: "produces (hasNext v) (nextf v) (env v) xs = Some e'"
    and s: "\<forall>n. staysEmpty (hasNext v) e' n"
    by (auto simp: wellBehaved_def split: option.splits)
  show ?thesis
  proof (cases "\<exists>y\<in>set xs. equal (convert v y) x = BoolV True")
    case False
    then have nm: "\<forall>y\<in>set xs. equal (convert v y) x \<noteq> BoolV True" by blast
    then have pre: "?pre = xs" by (simp add: takeWhile_eq_all_conv)
    from s obtain e'' where h: "hasNext v e' = ((False, None), e'')"
      and s': "\<forall>n. staysEmpty (hasNext v) e'' n"
      by (rule staysEmpty_step)
    let ?v' = "v\<lparr>cur := last (cur v # xs), index := index v + int (length xs), env := e''\<rparr>"
    have "Contains equal x v = Some (Return (BoolV False), ?v')"
      unfolding Contains_def using p h nm by (rule Contains_loop_no_match)
    with False have c: "Contains equal x v =
      Some (Return (BoolV (\<exists>y\<in>set xs. equal (convert v y) x = BoolV True)), ?v')"
      by simp
    have "\<forall>n. staysEmpty (hasNext ?v') (env ?v') n" using s' by simp
    with c pre show ?thesis
      by (intro exI [of _ ?v']) simp
  next
    case True
    then have ne: "dropWhile ?m xs \<noteq> []" by (simp add: dropWhile_eq_Nil_conv)
    then obtain y rest where d: "dropWhile ?m xs = y # rest"
      by (cases "dropWhile ?m xs") auto
    have my: "equal (convert v y) x = BoolV True"
      using hd_dropWhile [OF ne] d by simp
    have split: "xs = (?pre @ [y]) @ rest"
      using takeWhile_dropWhile_id [of ?m xs] d by simp
    have npre: "\<forall>z\<in>set ?pre. equal (convert v z) x \<noteq> BoolV True"
      by (auto dest: set_takeWhileD)
    have "produces (hasNext v) (nextf v) (env v) ((?pre @ [y]) @ rest) = Some e'"
      using p split by simp
    then have "(case produces (hasNext v) (nextf v) (env v) (?pre @ [y]) of None \<Rightarrow> None
        | Some e1 \<Rightarrow> produces (hasNext v) (nextf v) e1 rest) = Some e'"
      by (simp only: produces_append [of _ _ _ "?pre @ [y]" rest])
    then obtain e1 where p1: "produces (hasNext v) (nextf v) (env v) (?pre @ [y]) = Some e1"
      and p2: "produces (hasNext v) (nextf v) e1 rest = Some e'"
      by (cases "produces (hasNext v) (nextf v) (env v) (?pre @ [y])") simp_all
    let ?v' = "v\<lparr>cur := y, index := index v + int (length ?pre) + 1, env := e1\<rparr>"
    have "Contains equal x v = Some (Return (BoolV True), ?v')"
      unfolding Contains_def using p1 npre my by (rule Contains_loop_match)
    with True have c: "Contains equal x v =
      Some (Return (BoolV (\<exists>y\<in>set xs. equal (convert v y) x = BoolV True)), ?v')"
      by simp
    have split2: "xs = ?pre @ y # rest"
      using split by simp
    have len: "length ?pre < length xs"
      using arg_cong [OF split2, of length] by simp
    have nth: "xs ! length ?pre = y"
      by (subst split2) (simp only: nth_append_length)
    have "drop (Suc (length ?pre)) (?pre @ y # rest) = rest"
      by simp
    then have dr: "drop (Suc (length ?pre)) xs = rest"
      using split2 by simp
    have wb: "wellBehaved (hasNext ?v') (nextf ?v') (env ?v') rest"
      using p2 s by (simp add: wellBehaved_def)
    have neq: "?pre \<noteq> xs"
    proof
      assume "?pre = xs"
      then have "length ?pre = length xs" by (rule arg_cong)
      with len show False by linarith
    qed
    have "(let pre = ?pre in
       if pre = xs then
         index ?v' = index v + int (length xs) \<and> (\<forall>n. staysEmpty (hasNext ?v') (env ?v') n)
       else
         index ?v' = index v + int (length pre) + 1 \<and> cur ?v' = xs ! length pre \<and>
         wellBehaved (hasNext ?v') (nextf ?v') (env ?v') (drop (Suc (length pre)) xs))"
      unfolding Let_def if_not_P [OF neq] nth dr using wb by simp
    with c show ?thesis
      by (intro exI [of _ ?v']) simp
  qed
qed

theorem Contains_spec_witness:
  "wellBehaved (hasNext testCursor) (nextf testCursor) (env testCursor) testValues \<and>
   map_option fst (Contains hostEqual (StringV ''example'') testCursor)
     = Some (Return (BoolV True)) \<and>
   map_option (index \<circ> snd) (Contains hostEqual (StringV ''example'') testCursor) = Some 1 \<and>
   map_option fst (Contains hostEqual (StringV ''blah'') testCursor)
     = Some (Return (BoolV False)) \<and>
   map_option (index \<circ> snd) (Contains hostEqual (StringV ''blah'') testCursor) = Some 2"
proof -
  note wb = testCursor_wellBehaved
  have a: "map_option fst (Contains hostEqual (StringV ''example'') testCursor)
     = Some (Return (BoolV True)) \<and>
     map_option (index \<circ> snd) (Contains hostEqual (StringV ''example'') testCursor) = Some 1"
    using Contains_spec [OF wb, of hostEqual "StringV ''example''"]
    by (auto simp: testCursor_fields testValues_def)
  have b: "map_option fst (Contains hostEqual (StringV ''blah'') testCursor)
     = Some (Return (BoolV False)) \<and>
     map_option (index \<circ> snd) (Contains hostEqual (StringV ''blah'') testCursor) = Some 2"
    using Contains_spec [OF wb, of hostEqual "StringV ''blah''"]
    by (auto simp: testCursor_fields testValues_def)
  from wb a b show ?thesis by blast
qed

section \<open>The index never decreases\<close>

text \<open>
  Claim C7. A cursor made by \<open>New\<close> starts at index \<open>-1\<close>. Whatever sequence of
  \<open>HasNext\<close>, \<open>Next\<close>, \<open>Get\<close>, \<open>Size\<close>, \<open>Contains\<close>, \<open>ConvertToNative\<close> and \<open>Equal\<close> calls
  runs on a cursor, the index afterwards is at least the index before. And no element
  below the current index is delivered again: \<open>Get\<close> with a key below the current index
  answers with one of its two range errors and leaves the cursor as it is.
\<close>

theorem index_never_decreases:
  "index (New zero nativeToValue hn nx cv e) = - 1 \<and>
   (run typeOf assignableTo goName equal self ops v = Some (rs, v') \<longrightarrow> index v \<le> index v') \<and>
   (k < index v \<longrightarrow>
      Get (IntV k) v =
        Some (Return (ErrV (if k < 0 then ''index cannot be negative''
                            else ''index already passed'')), v))"
proof (intro conjI impI)
  show "index (New zero nativeToValue hn nx cv e) = - 1"
    by (simp add: New_def)
next
  assume "run typeOf assignableTo goName equal self ops v = Some (rs, v')"
  then show "index v \<le> index v'" by (rule run_index_mono)
next
  assume "k < index v"
  then show "Get (IntV k) v =
        Some (Return (ErrV (if k < 0 then ''index cannot be negative''
                            else ''index already passed'')), v)"
    by (simp add: Get_def)
qed

theorem index_never_decreases_witness:
  "index testCursor = - 1 \<and>
   (case run (\<lambda>s :: string. Some ''string'') (=) id hostEqual 0
       [OpHasNext, OpNext, OpGet (IntV 1), OpEqual (IterV 0), OpConvertToNative ''string'',
        OpContains (StringV ''sample''), OpSize] testCursor of
      None \<Rightarrow> False
    | Some (rs, v') \<Rightarrow> index v' = 2 \<and> index testCursor \<le> index v') \<and>
   (0 :: int) < index (testCursor\<lparr>cur := ''example'', index := 1,
                       env := \<lparr>slot = ''example'', coro = Some [''sample'']\<rparr>\<rparr>) \<and>
   Get (IntV 0) (testCursor\<lparr>cur := ''example'', index := 1,
                       env := \<lparr>slot = ''example'', coro = Some [''sample'']\<rparr>\<rparr>) =
     Some (Return (ErrV ''index already passed''),
           testCursor\<lparr>cur := ''example'', index := 1,
                       env := \<lparr>slot = ''example'', coro = Some [''sample'']\<rparr>\<rparr>)"
proof -
  let ?ops = "[OpHasNext, OpNext, OpGet (IntV 1), OpEqual (IterV 0), OpConvertToNative ''string'',
        OpContains (StringV ''sample''), OpSize]"
  let ?run = "run (\<lambda>s :: string. Some ''string'') (=) id hostEqual 0 ?ops testCursor"
  let ?at1 = "testCursor\<lparr>cur := ''example'', index := 1,
                       env := \<lparr>slot = ''example'', coro = Some [''sample'']\<rparr>\<rparr>"
  have a: "index testCursor = - 1"
    unfolding testCursor_def FromSeq_def
    by (rule index_never_decreases [THEN conjunct1])
  from testCursor_run obtain rs v0 where r: "?run = Some (rs, v0)" and i: "index v0 = 2"
    by auto
  have m: "index testCursor \<le> index v0"
    by (rule index_never_decreases [THEN conjunct2, THEN conjunct1, rule_format, OF r])
  have lt: "(0 :: int) < index ?at1" by simp
  from index_never_decreases [THEN conjunct2, THEN conjunct2, rule_format, OF lt]
  have g: "Get (IntV 0) ?at1 = Some (Return (ErrV ''index already passed''), ?at1)"
    by simp
  from r i m have "(case ?run of None \<Rightarrow> False
    | Some (rs, v') \<Rightarrow> index v' = 2 \<and> index testCursor \<le> index v')"
    by simp
  with a lt g show ?thesis by blast
qed

section \<open>Advance\<close>

text \<open>
  Claim C8. \<open>Next\<close> calls the \<open>next\<close> callback. When the callback returns an error, the
  result is the host error value "error getting next element: ..." around the callback's
  message, and \<open>cur\<close> and \<open>index\<close> stay as they were. When it succeeds with \<open>x\<close>, the
  cursor stores \<open>x\<close> as current, adds one to the index and returns \<open>convert x\<close>; the
  state after the call differs from the state before it whatever is done with the result.
\<close>

theorem Next_spec:
  "(\<forall>x m e'. nextf ci (env ci) = ((x, Some m), e') \<longrightarrow>
      Next ci = (ErrV (''error getting next element: '' @ m), ci\<lparr>env := e'\<rparr>)) \<and>
   (\<forall>x e'. nextf ci (env ci) = ((x, None), e') \<longrightarrow>
      Next ci = (convert ci x, ci\<lparr>cur := x, index := index ci + 1, env := e'\<rparr>) \<and>
      snd (Next ci) \<noteq> ci)"
proof (intro conjI allI impI)
  fix x m e' assume "nextf ci (env ci) = ((x, Some m), e')"
  then show "Next ci = (ErrV (''error getting next element: '' @ m), ci\<lparr>env := e'\<rparr>)"
    by (rule Next_err)
next
  fix x e' assume n: "nextf ci (env ci) = ((x, None), e')"
  then show "Next ci = (convert ci x, ci\<lparr>cur := x, index := index ci + 1, env := e'\<rparr>)"
    by (rule Next_ok)
  have "index (snd (Next ci)) = index ci + 1"
    by (simp add: Next_ok [OF n])
  then show "snd (Next ci) \<noteq> ci" by auto
qed

theorem Next_spec_witness:
  "nextf flakyCursor (env flakyCursor) = (([], Some ''boom''), 1) \<and>
   Next flakyCursor = (ErrV ''error getting next element: boom'', flakyCursor\<lparr>env := 1\<rparr>) \<and>
   nextf (flakyCursor\<lparr>env := 1\<rparr>) (env (flakyCursor\<lparr>env := 1\<rparr>)) = ((''a'', None), 2) \<and>
   Next (flakyCursor\<lparr>env := 1\<rparr>) =
     (StringV ''a'', flakyCursor\<lparr>cur := ''a'', index := 0, env := 2\<rparr>) \<and>
   snd (Next (flakyCursor\<lparr>env := 1\<rparr>)) \<noteq> flakyCursor\<lparr>env := 1\<rparr>"
proof -
  have a: "nextf flakyCursor (env flakyCursor) = (([], Some ''boom''), 1)"
    by (simp add: flakyCursor_fields flakyNext_def)
  have b: "nextf (flakyCursor\<lparr>env := 1\<rparr>) (env (flakyCursor\<lparr>env := 1\<rparr>)) = ((''a'', None), 2)"
    by (simp add: flakyCursor_fields flakyNext_def)
  from Next_spec [of flakyCursor] a
  have c: "Next flakyCursor = (ErrV (''error getting next element: '' @ ''boom''),
      flakyCursor\<lparr>env := 1\<rparr>)"
    by blast
  from Next_spec [of "flakyCursor\<lparr>env := 1\<rparr>"] b
  have d: "Next (flakyCursor\<lparr>env := 1\<rparr>) =
      (convert (flakyCursor\<lparr>env := 1\<rparr>) ''a'',
       flakyCursor\<lparr>env := 1, cur := ''a'', index := index (flakyCursor\<lparr>env := 1\<rparr>) + 1,
                    env := 2\<rparr>)
    \<and> snd (Next (flakyCursor\<lparr>env := 1\<rparr>)) \<noteq> flakyCursor\<lparr>env := 1\<rparr>"
    by blast
  from c have c': "Next flakyCursor =
      (ErrV ''error getting next element: boom'', flakyCursor\<lparr>env := 1\<rparr>)"
    by simp
  from d have d1: "Next (flakyCursor\<lparr>env := 1\<rparr>) =
      (StringV ''a'', flakyCursor\<lparr>cur := ''a'', index := 0, env := 2\<rparr>)"
    by (simp add: flakyCursor_fields)
  from d have d2: "snd (Next (flakyCursor\<lparr>env := 1\<rparr>)) \<noteq> flakyCursor\<lparr>env := 1\<rparr>"
    by (rule conjunct2)
  from a b c' d1 d2 show ?thesis
    by blast
qed

section \<open>Native conversion\<close>

text \<open>
  Claim C9 as stated fails: \<open>ConvertToNative\<close> has no check for a cursor that has not
  advanced. On the fresh test cursor over strings the current element is the zero
  value, the empty string, and the call hands it out as a result; it raises no error.
\<close>

theorem ConvertToNative_fresh_counterexample:
  "index testCursor = - 1 \<and>
   ConvertToNative (\<lambda>s :: string. Some ''string'') (=) id testCursor ''string''
     = Return (Inr [])"
  by (simp add: ConvertToNative_def testCursor_fields)

text \<open>
  Claim C9, amended. When the current element has a dynamic type \<open>ty\<close>,
  \<open>ConvertToNative\<close> returns the current element if \<open>ty\<close> is assignable to the requested
  type and otherwise the error that names the cursor's host type and the requested
  type. A fresh cursor is no exception: its current element is the zero value of the
  element type.
\<close>

theorem ConvertToNative_spec:
  "(typeOf (cur v) = Some ty \<longrightarrow>
      ConvertToNative typeOf assignableTo goName v typ' =
        (if assignableTo ty typ' then Return (Inr (cur v))
         else Return (Inl (''unable to convert dyn to native type '' @ goName typ')))) \<and>
   (typeOf zero = Some ty \<and> assignableTo ty typ' \<longrightarrow>
      ConvertToNative typeOf assignableTo goName (New zero nativeToValue hn nx cv e) typ' =
        Return (Inr zero))"
  by (simp add: ConvertToNative_def New_def)

theorem ConvertToNative_spec_witness:
  "ConvertToNative (\<lambda>s :: string. Some ''string'') (=) id
      (testCursor\<lparr>cur := ''sample'', index := 2\<rparr>) ''string'' = Return (Inr ''sample'') \<and>
   ConvertToNative (\<lambda>s :: string. Some ''string'') (=) id
      (testCursor\<lparr>cur := ''sample'', index := 2\<rparr>) ''int''
      = Return (Inl ''unable to convert dyn to native type int'') \<and>
   ConvertToNative (\<lambda>s :: string. Some ''string'') (=) id testCursor ''string'' = Return (Inr [])"
proof -
  let ?v = "testCursor\<lparr>cur := ''sample'', index := 2\<rparr>"
  have t: "(\<lambda>s :: string. Some ''string'') (cur ?v) = Some ''string''" by simp
  have z: "(\<lambda>s :: string. Some ''string'') [] = Some ''string'' \<and> ''string'' = ''string''"
    by simp
  from ConvertToNative_spec [where assignableTo = "(=)" and goName = id and typ' = "''string''"
      and v = ?v and typeOf = "\<lambda>s. Some ''string''",
      THEN conjunct1, rule_format, OF t]
  have a: "ConvertToNative (\<lambda>s :: string. Some ''string'') (=) id ?v ''string''
      = Return (Inr ''sample'')"
    by simp
  from ConvertToNative_spec [where assignableTo = "(=)" and goName = id and typ' = "''int''"
      and v = ?v and typeOf = "\<lambda>s. Some ''string''",
      THEN conjunct1, rule_format, OF t]
  have b: "ConvertToNative (\<lambda>s :: string. Some ''string'') (=) id ?v ''int''
      = Return (Inl ''unable to convert dyn to native type int'')"
    by simp
  from ConvertToNative_spec [where goName = id and nativeToValue = StringV
      and typeOf = "\<lambda>s :: string. Some ''string''" and zero = "[]" and ty = "''string''"
      and assignableTo = "(=)" and typ' = "''string''"
      and hn = "Some (FromSeq_hasNext sliceResume [])" and nx = "Some FromSeq_getNext"
      and cv = "Some StringV" and e = "\<lparr>slot = [], coro = Some testValues\<rparr>",
      THEN conjunct2, rule_format, OF z]
  have c: "ConvertToNative (\<lambda>s :: string. Some ''string'') (=) id testCursor ''string''
      = Return (Inr [])"
    by (simp add: testCursor_def FromSeq_def slicesValues_def)
  from a b c show ?thesis by blast
qed

section \<open>Reading the current element again\<close>

text \<open>
  Claim C10. The index starts at \<open>-1\<close> and a successful advance adds one to it, so after
  a successful advance \<open>0 \<le> index\<close>, and it stays so since the index never decreases.
  On a cursor with \<open>0 \<le> index\<close>, \<open>Get\<close> with the current index as key returns the
  conversion of the current element and the very same cursor state, producer state
  included, so neither callback has run; any number \<open>n\<close> of such calls in a row do the
  same. The cursor may be exhausted: the statement asks nothing of the producer.
\<close>

theorem Get_reread:
  "(- 1 \<le> index v0 \<and> nextf v0 (env v0) = ((x, None), e0) \<longrightarrow> 0 \<le> index (snd (Next v0))) \<and>
   (0 \<le> index v \<longrightarrow>
      run typeOf assignableTo goName equal self (replicate n (OpGet (IntV (index v)))) v =
        Some (replicate n (Return (Host (convert v (cur v)))), v))"
proof (intro conjI impI)
  assume "- 1 \<le> index v0 \<and> nextf v0 (env v0) = ((x, None), e0)"
  then show "0 \<le> index (snd (Next v0))"
    by (simp add: Next_def)
next
  assume "0 \<le> index v"
  then have "Get (IntV (index v)) v = Some (Return (convert v (cur v)), v)"
    by (rule Get_current)
  then show "run typeOf assignableTo goName equal self (replicate n (OpGet (IntV (index v)))) v =
        Some (replicate n (Return (Host (convert v (cur v)))), v)"
    by (induction n) simp_all
qed

theorem Get_reread_witness:
  "- 1 \<le> index (testCursor\<lparr>env := \<lparr>slot = ''test'', coro = Some [''example'', ''sample'']\<rparr>\<rparr>) \<and>
   nextf (testCursor\<lparr>env := \<lparr>slot = ''test'', coro = Some [''example'', ''sample'']\<rparr>\<rparr>)
      \<lparr>slot = ''test'', coro = Some [''example'', ''sample'']\<rparr>
     = ((''test'', None), \<lparr>slot = ''test'', coro = Some [''example'', ''sample'']\<rparr>) \<and>
   0 \<le> index (snd (Next (testCursor\<lparr>env :=
                    \<lparr>slot = ''test'', coro = Some [''example'', ''sample'']\<rparr>\<rparr>))) \<and>
   Size testCursor =
     Some (Return (IntV 3),
           testCursor\<lparr>cur := ''sample'', index := 2, env := \<lparr>slot = [], coro = None\<rparr>\<rparr>) \<and>
   0 \<le> index (testCursor\<lparr>cur := ''sample'', index := 2, env := \<lparr>slot = [], coro = None\<rparr>\<rparr>) \<and>
   run (\<lambda>s :: string. Some ''string'') (=) id hostEqual 0
       [OpGet (IntV 2), OpGet (IntV 2), OpGet (IntV 2)]
       (testCursor\<lparr>cur := ''sample'', index := 2, env := \<lparr>slot = [], coro = None\<rparr>\<rparr>) =
     Some ([Return (Host (StringV ''sample'')), Return (Host (StringV ''sample'')),
            Return (Host (StringV ''sample''))],
           testCursor\<lparr>cur := ''sample'', index := 2, env := \<lparr>slot = [], coro = None\<rparr>\<rparr>)"
proof -
  let ?e1 = "\<lparr>slot = ''test'', coro = Some [''example'', ''sample'']\<rparr>"
  let ?t1 = "testCursor\<lparr>env := ?e1\<rparr>"
  let ?v = "testCursor\<lparr>cur := ''sample'', index := 2, env := \<lparr>slot = [], coro = None\<rparr>\<rparr>"
  have a: "- 1 \<le> index ?t1" by (simp add: testCursor_fields)
  have b: "nextf ?t1 ?e1 = ((''test'', None), ?e1)"
    by (simp add: testCursor_fields FromSeq_getNext_def)
  have ab: "- 1 \<le> index ?t1 \<and> nextf ?t1 (env ?t1) = ((''test'', None), ?e1)"
    using a b by simp
  have c: "0 \<le> index (snd (Next ?t1))"
    by (rule Get_reread [THEN conjunct1, rule_format, OF ab])
  have i: "0 \<le> index ?v" by simp
  have r: "replicate 3 y = [y, y, y]" for y :: 'a
    by (simp add: numeral_3_eq_3)
  from Get_reread [THEN conjunct2, rule_format, OF i,
      of "\<lambda>s. Some ''string''" "(=)" id hostEqual 0 3]
  have d: "run (\<lambda>s :: string. Some ''string'') (=) id hostEqual 0
       [OpGet (IntV 2), OpGet (IntV 2), OpGet (IntV 2)] ?v =
     Some ([Return (Host (StringV ''sample'')), Return (Host (StringV ''sample'')),
            Return (Host (StringV ''sample''))], ?v)"
    by (simp only: r) (simp add: testCursor_fields)
  from a b c testCursor_Size i d show ?thesis by blast
qed

end
